theory Spec2Isabelle
  imports Complex_Main "HOL-Library.Word" "HOL-Library.Sublist"
begin

section \<open>Streaming decoder of \<open>src/utils/openai.ts\<close>\<close>

text \<open>
  The file \<open>src/utils/openai.ts\<close> exports one function, \<open>streamOpenAIChat\<close>. It resolves
  the API key, sends one HTTP request and returns the asynchronous generator
  \<open>streamChunks\<close>, which reads the response body chunk by chunk, cuts the decoded text
  into lines and yields the \<open>delta\<close> field of the events it recognises.

  The embedding follows the source line by line. What the source takes from the
  JavaScript platform (\<open>TextDecoder\<close>, \<open>String.prototype.split\<close>, \<open>startsWith\<close>,
  \<open>replace\<close>, \<open>trim\<close>, \<open>JSON.parse\<close>, property access, truthiness) is written out here
  after the ECMAScript, Encoding and JSON standards, so that every definition computes.
\<close>

subsection \<open>Bytes and strings\<close>

text \<open>
  A chunk is a \<open>Uint8Array\<close>: a list of 8-bit words. A JavaScript string is a sequence
  of UTF-16 code units: a list of 16-bit words. \<open>js\<close> writes an ASCII literal of the
  source as such a string.
\<close>

type_synonym byte = "8 word"
type_synonym jschar = "16 word"
type_synonym jsstring = "jschar list"

definition js :: "string \<Rightarrow> jsstring" where
  "js s = map of_char s"

subsection \<open>\<open>new TextDecoder('utf-8')\<close> with \<open>{ stream: true }\<close>\<close>

text \<open>
  The UTF-8 decoder of the Encoding standard is a machine that takes one byte at a
  time. It keeps the code point under construction, the number of continuation bytes
  seen and needed, and the bounds allowed for the next continuation byte. In the
  replacement error mode of \<open>TextDecoder\<close> an ill-formed sequence gives U+FFFD, and the
  byte that broke a sequence is handled again from the initial state.
\<close>

record utf8_decoder =
  code_point :: int
  bytes_seen :: nat
  bytes_needed :: nat
  lower_boundary :: byte
  upper_boundary :: byte

definition utf8_initial :: utf8_decoder where
  "utf8_initial = \<lparr>code_point = 0, bytes_seen = 0, bytes_needed = 0,
     lower_boundary = 0x80, upper_boundary = 0xBF\<rparr>"

text \<open>A byte met when no continuation byte is awaited.\<close>

definition utf8_lead :: "byte \<Rightarrow> utf8_decoder \<times> int list" where
  "utf8_lead b =
     (if b \<le> 0x7F then (utf8_initial, [uint b])
      else if 0xC2 \<le> b \<and> b \<le> 0xDF then
        (utf8_initial\<lparr>bytes_needed := 1, code_point := uint b mod 32\<rparr>, [])
      else if 0xE0 \<le> b \<and> b \<le> 0xEF then
        (utf8_initial\<lparr>bytes_needed := 2, code_point := uint b mod 16,
           lower_boundary := (if b = 0xE0 then 0xA0 else 0x80),
           upper_boundary := (if b = 0xED then 0x9F else 0xBF)\<rparr>, [])
      else if 0xF0 \<le> b \<and> b \<le> 0xF4 then
        (utf8_initial\<lparr>bytes_needed := 3, code_point := uint b mod 8,
           lower_boundary := (if b = 0xF0 then 0x90 else 0x80),
           upper_boundary := (if b = 0xF4 then 0x8F else 0xBF)\<rparr>, [])
      else (utf8_initial, [0xFFFD]))"

definition utf8_handler :: "utf8_decoder \<Rightarrow> byte \<Rightarrow> utf8_decoder \<times> int list" where
  "utf8_handler d b =
     (if bytes_needed d = 0 then utf8_lead b
      else if b < lower_boundary d \<or> upper_boundary d < b then
        (let (d', out) = utf8_lead b in (d', 0xFFFD # out))
      else
        (let cp = code_point d * 64 + uint b mod 64 in
         if Suc (bytes_seen d) \<noteq> bytes_needed d then
           (d\<lparr>lower_boundary := 0x80, upper_boundary := 0xBF, code_point := cp,
              bytes_seen := Suc (bytes_seen d)\<rparr>, [])
         else (utf8_initial, [cp])))"

text \<open>A code point becomes one UTF-16 code unit, or a surrogate pair above U+FFFF.\<close>

definition utf16_units :: "int \<Rightarrow> jsstring" where
  "utf16_units cp =
     (if cp < 0x10000 then [of_int cp]
      else [of_int (0xD800 + (cp - 0x10000) div 1024),
            of_int (0xDC00 + (cp - 0x10000) mod 1024)])"

text \<open>
  The \<open>TextDecoder\<close> object holds the UTF-8 machine and the flag \<open>BOM seen\<close>: with the
  default \<open>ignoreBOM = false\<close> the first code point of the stream is dropped when it is
  U+FEFF. With \<open>stream: true\<close> on every call neither is reset between calls, and bytes
  of an unfinished sequence stay in the machine until the next call.
\<close>

record text_decoder =
  utf8 :: utf8_decoder
  bom_seen :: bool

definition new_TextDecoder :: text_decoder where
  "new_TextDecoder = \<lparr>utf8 = utf8_initial, bom_seen = False\<rparr>"

fun serialize :: "bool \<Rightarrow> int list \<Rightarrow> bool \<times> jsstring" where
  "serialize seen [] = (seen, [])"
| "serialize seen (cp # cps) =
     (let (seen', s) = serialize True cps
      in (seen', (if \<not> seen \<and> cp = 0xFEFF then [] else utf16_units cp) @ s))"

definition decode_byte :: "text_decoder \<Rightarrow> byte \<Rightarrow> text_decoder \<times> jsstring" where
  "decode_byte td b =
     (let (u, cps) = utf8_handler (utf8 td) b;
          (seen, s) = serialize (bom_seen td) cps
      in (\<lparr>utf8 = u, bom_seen = seen\<rparr>, s))"

text \<open>\<open>decoder.decode(value, { stream: true })\<close>: the new decoder state and the text.\<close>

fun decode :: "text_decoder \<Rightarrow> byte list \<Rightarrow> text_decoder \<times> jsstring" where
  "decode td [] = (td, [])"
| "decode td (b # bs) =
     (let (td1, s1) = decode_byte td b;
          (td2, s2) = decode td1 bs
      in (td2, s1 @ s2))"

subsection \<open>String operations of the loop body\<close>

text \<open>\<open>s.split(sep)\<close> for a one-unit separator: never empty, \<open>''.split(sep)\<close> is \<open>['']\<close>.\<close>

fun split :: "'a \<Rightarrow> 'a list \<Rightarrow> 'a list list" where
  "split sep [] = [[]]"
| "split sep (x # xs) =
     (let r = split sep xs
      in if x = sep then [] # r else (x # hd r) # tl r)"

definition newline :: jschar where
  "newline = 0x0A"

definition startsWith :: "'a list \<Rightarrow> 'a list \<Rightarrow> bool" where
  "startsWith s p = (take (length p) s = p)"

text \<open>\<open>s.replace(p, r)\<close> for a string pattern: the first occurrence only.\<close>

fun replace :: "'a list \<Rightarrow> 'a list \<Rightarrow> 'a list \<Rightarrow> 'a list" where
  "replace [] p r = (if p = [] then r else [])"
| "replace (x # xs) p r =
     (if startsWith (x # xs) p then r @ drop (length p) (x # xs)
      else x # replace xs p r)"

text \<open>\<open>s.trim()\<close> removes the WhiteSpace and LineTerminator code units at both ends.\<close>

definition is_js_space :: "jschar \<Rightarrow> bool" where
  "is_js_space c =
     (c = 0x09 \<or> c = 0x0A \<or> c = 0x0B \<or> c = 0x0C \<or> c = 0x0D \<or> c = 0x20 \<or> c = 0xA0
      \<or> c = 0x1680 \<or> (0x2000 \<le> c \<and> c \<le> 0x200A) \<or> c = 0x2028 \<or> c = 0x2029
      \<or> c = 0x202F \<or> c = 0x205F \<or> c = 0x3000 \<or> c = 0xFEFF)"

definition trim :: "jsstring \<Rightarrow> jsstring" where
  "trim s = rev (dropWhile is_js_space (rev (dropWhile is_js_space s)))"

subsection \<open>\<open>JSON.parse\<close>\<close>

text \<open>
  A parsed JSON value. A number is kept as the exact value of its literal; the
  runtime stores the IEEE double nearest to it. An object keeps its members in the
  order of the text, duplicates included.
\<close>

datatype json =
    JNull
  | JBool bool
  | JNum rat
  | JStr jsstring
  | JArr "json list"
  | JObj "(jsstring \<times> json) list"

definition is_json_ws :: "jschar \<Rightarrow> bool" where
  "is_json_ws c = (c = 0x20 \<or> c = 0x09 \<or> c = 0x0A \<or> c = 0x0D)"

definition skip_ws :: "jsstring \<Rightarrow> jsstring" where
  "skip_ws = dropWhile is_json_ws"

definition is_digit :: "jschar \<Rightarrow> bool" where
  "is_digit c = (0x30 \<le> c \<and> c \<le> 0x39)"

definition digits_value :: "jsstring \<Rightarrow> int" where
  "digits_value ds = foldl (\<lambda>a c. 10 * a + (uint c - 0x30)) 0 ds"

definition hex_value :: "jschar \<Rightarrow> int option" where
  "hex_value c =
     (if 0x30 \<le> c \<and> c \<le> 0x39 then Some (uint c - 0x30)
      else if 0x41 \<le> c \<and> c \<le> 0x46 then Some (uint c - 0x41 + 10)
      else if 0x61 \<le> c \<and> c \<le> 0x66 then Some (uint c - 0x61 + 10)
      else None)"

definition simple_escape :: "jschar \<Rightarrow> jschar option" where
  "simple_escape c =
     (if c = 0x22 then Some 0x22
      else if c = 0x5C then Some 0x5C
      else if c = 0x2F then Some 0x2F
      else if c = 0x62 then Some 0x08
      else if c = 0x66 then Some 0x0C
      else if c = 0x6E then Some 0x0A
      else if c = 0x72 then Some 0x0D
      else if c = 0x74 then Some 0x09
      else None)"

definition prepend :: "'a \<Rightarrow> ('a list \<times> 'b) option \<Rightarrow> ('a list \<times> 'b) option" where
  "prepend x r = map_option (\<lambda>(xs, rest). (x # xs, rest)) r"

text \<open>
  The characters of a string literal after its opening quote, up to the closing quote:
  the string denoted and the text that follows.
\<close>

fun json_string :: "jsstring \<Rightarrow> (jsstring \<times> jsstring) option" where
  "json_string [] = None"
| "json_string (c # cs) =
     (if c = 0x22 then Some ([], cs)
      else if c = 0x5C then
        (case cs of
           [] \<Rightarrow> None
         | e # r \<Rightarrow>
             if e = 0x75 then
               (case r of
                  h1 # h2 # h3 # h4 # r' \<Rightarrow>
                    (case (hex_value h1, hex_value h2, hex_value h3, hex_value h4) of
                       (Some a, Some b, Some c', Some d) \<Rightarrow>
                         prepend (of_int (((a * 16 + b) * 16 + c') * 16 + d)) (json_string r')
                     | _ \<Rightarrow> None)
                | _ \<Rightarrow> None)
             else
               (case simple_escape e of
                  None \<Rightarrow> None
                | Some x \<Rightarrow> prepend x (json_string r)))
      else if c < 0x20 then None
      else prepend c (json_string cs))"

text \<open>
  A number literal: \<open>-? (0 | [1-9][0-9]*) (. [0-9]+)? ([eE] [+-]? [0-9]+)?\<close>, read as
  far as it goes.
\<close>

definition json_exponent :: "jsstring \<Rightarrow> (int \<times> jsstring) option" where
  "json_exponent cs =
     (case cs of
        [] \<Rightarrow> Some (0, [])
      | c # r \<Rightarrow>
          if c = 0x65 \<or> c = 0x45 then
            (let (neg, r1) =
                   (case r of
                      [] \<Rightarrow> (False, [])
                    | s # r' \<Rightarrow>
                        if s = 0x2D then (True, r')
                        else if s = 0x2B then (False, r')
                        else (False, r));
                 ds = takeWhile is_digit r1
             in if ds = [] then None
                else Some ((if neg then - digits_value ds else digits_value ds),
                           dropWhile is_digit r1))
          else Some (0, cs))"

definition json_fraction :: "jsstring \<Rightarrow> (jsstring \<times> jsstring) option" where
  "json_fraction cs =
     (case cs of
        [] \<Rightarrow> Some ([], [])
      | c # r \<Rightarrow>
          if c = 0x2E then
            (let ds = takeWhile is_digit r
             in if ds = [] then None else Some (ds, dropWhile is_digit r))
          else Some ([], cs))"

definition scale10 :: "int \<Rightarrow> int \<Rightarrow> rat" where
  "scale10 m e = (if 0 \<le> e then of_int m * 10 ^ nat e else of_int m / 10 ^ nat (- e))"

definition json_number :: "jsstring \<Rightarrow> (rat \<times> jsstring) option" where
  "json_number cs =
     (let (neg, cs1) =
            (case cs of
               [] \<Rightarrow> (False, [])
             | c # r \<Rightarrow> if c = 0x2D then (True, r) else (False, cs));
          ip = takeWhile is_digit cs1
      in if ip = [] \<or> (1 < length ip \<and> hd ip = 0x30) then None
         else
           (case json_fraction (dropWhile is_digit cs1) of
              None \<Rightarrow> None
            | Some (fp, cs2) \<Rightarrow>
                (case json_exponent cs2 of
                   None \<Rightarrow> None
                 | Some (e, cs3) \<Rightarrow>
                     (let m = digits_value (ip @ fp)
                      in Some (scale10 (if neg then - m else m) (e - int (length fp)),
                               cs3)))))"

text \<open>
  A value, the elements of an array after \<open>[\<close>, and the members of an object after
  \<open>{\<close>. The first argument bounds the number of nested calls; \<open>JSON_parse\<close> starts
  with more than the text can use.
\<close>

fun json_value :: "nat \<Rightarrow> jsstring \<Rightarrow> (json \<times> jsstring) option"
  and json_elements :: "nat \<Rightarrow> jsstring \<Rightarrow> (json list \<times> jsstring) option"
  and json_members :: "nat \<Rightarrow> jsstring \<Rightarrow> ((jsstring \<times> json) list \<times> jsstring) option"
where
  "json_value 0 cs = None"
| "json_value (Suc n) cs =
     (case skip_ws cs of
        [] \<Rightarrow> None
      | c # r \<Rightarrow>
          if c = 0x7B then
            (case skip_ws r of
               [] \<Rightarrow> None
             | c1 # r1 \<Rightarrow>
                 if c1 = 0x7D then Some (JObj [], r1)
                 else map_option (\<lambda>(kvs, rest). (JObj kvs, rest)) (json_members n (c1 # r1)))
          else if c = 0x5B then
            (case skip_ws r of
               [] \<Rightarrow> None
             | c1 # r1 \<Rightarrow>
                 if c1 = 0x5D then Some (JArr [], r1)
                 else map_option (\<lambda>(vs, rest). (JArr vs, rest)) (json_elements n (c1 # r1)))
          else if c = 0x22 then
            map_option (\<lambda>(s, rest). (JStr s, rest)) (json_string r)
          else if startsWith (c # r) (js ''true'') then Some (JBool True, drop 4 (c # r))
          else if startsWith (c # r) (js ''false'') then Some (JBool False, drop 5 (c # r))
          else if startsWith (c # r) (js ''null'') then Some (JNull, drop 4 (c # r))
          else map_option (\<lambda>(q, rest). (JNum q, rest)) (json_number (c # r)))"
| "json_elements 0 cs = None"
| "json_elements (Suc n) cs =
     (case json_value n cs of
        None \<Rightarrow> None
      | Some (v, r) \<Rightarrow>
          (case skip_ws r of
             [] \<Rightarrow> None
           | c # r1 \<Rightarrow>
               if c = 0x2C then prepend v (json_elements n r1)
               else if c = 0x5D then Some ([v], r1)
               else None))"
| "json_members 0 cs = None"
| "json_members (Suc n) cs =
     (case skip_ws cs of
        [] \<Rightarrow> None
      | q # r \<Rightarrow>
          if q \<noteq> 0x22 then None
          else
            (case json_string r of
               None \<Rightarrow> None
             | Some (k, r1) \<Rightarrow>
                 (case skip_ws r1 of
                    [] \<Rightarrow> None
                  | c # r2 \<Rightarrow>
                      if c \<noteq> 0x3A then None
                      else
                        (case json_value n r2 of
                           None \<Rightarrow> None
                         | Some (v, r3) \<Rightarrow>
                             (case skip_ws r3 of
                                [] \<Rightarrow> None
                              | c' # r4 \<Rightarrow>
                                  if c' = 0x2C then prepend (k, v) (json_members n r4)
                                  else if c' = 0x7D then Some ([(k, v)], r4)
                                  else None)))))"

text \<open>\<open>JSON.parse(text)\<close>: \<open>None\<close> is the SyntaxError it throws.\<close>

definition JSON_parse :: "jsstring \<Rightarrow> json option" where
  "JSON_parse s =
     (case json_value (2 * length s + 2) s of
        None \<Rightarrow> None
      | Some (v, rest) \<Rightarrow> if skip_ws rest = [] then Some v else None)"

subsection \<open>The body of the \<open>try\<close> block (lines 110 to 116)\<close>

datatype js_error = SyntaxError | TypeError

text \<open>
  \<open>parsed.name\<close> for the two names the source reads, \<open>type\<close> and \<open>delta\<close>, which no
  built-in prototype defines. On \<open>null\<close> the read throws a TypeError. On an object it
  gives the member of that name, the last one when the text repeats the name, and
  \<open>undefined\<close> (here \<open>None\<close>) when there is none. On a number, a string, a boolean or
  an array it gives \<open>undefined\<close>.
\<close>

definition field :: "(jsstring \<times> json) list \<Rightarrow> jsstring \<Rightarrow> json option" where
  "field members name = map_of (rev members) name"

fun get :: "json \<Rightarrow> jsstring \<Rightarrow> js_error + json option" where
  "get JNull name = Inl TypeError"
| "get (JObj members) name = Inr (field members name)"
| "get v name = Inr None"

text \<open>
  ToBoolean, as \<open>&&\<close> applies it. A number is falsy when its double is zero, which is
  when the literal is at most \<open>2\<^sup>-\<^sup>1\<^sup>0\<^sup>7\<^sup>5\<close> in absolute value.
\<close>

fun truthy :: "json \<Rightarrow> bool" where
  "truthy JNull = False"
| "truthy (JBool b) = b"
| "truthy (JNum q) = (1 < \<bar>q\<bar> * 2 ^ 1075)"
| "truthy (JStr s) = (s \<noteq> [])"
| "truthy (JArr vs) = True"
| "truthy (JObj members) = True"

text \<open>
  The statements inside \<open>try\<close>: either an exception, which the empty \<open>catch\<close> drops, or
  the values yielded (at most one). \<open>console.log\<close> has no effect on the generator.
\<close>

definition try_block :: "jsstring \<Rightarrow> js_error + json list" where
  "try_block data =
     (case JSON_parse data of
        None \<Rightarrow> Inl SyntaxError
      | Some parsed \<Rightarrow>
          (case get parsed (js ''type'') of
             Inl e \<Rightarrow> Inl e
           | Inr t \<Rightarrow>
               if t = Some (JStr (js ''response.output_text.delta'')) then
                 (case get parsed (js ''delta'') of
                    Inl e \<Rightarrow> Inl e
                  | Inr None \<Rightarrow> Inr []
                  | Inr (Some d) \<Rightarrow> if truthy d then Inr [d] else Inr [])
               else Inr []))"

subsection \<open>One candidate line and the \<open>for\<close> loop (lines 106 to 118)\<close>

text \<open>
  One iteration of \<open>for (const line of lines)\<close>: \<open>None\<close> when the iteration executes
  \<open>return\<close>, otherwise the values it yields.
\<close>

definition payload :: "jsstring \<Rightarrow> jsstring" where
  "payload line = trim (replace line (js ''data: '') [])"

definition on_line :: "jsstring \<Rightarrow> json list option" where
  "on_line line =
     (if startsWith line (js ''data: '') then
        (let data = payload line
         in if data = js ''[DONE]'' then None
            else (case try_block data of Inl e \<Rightarrow> Some [] | Inr ys \<Rightarrow> Some ys))
      else Some [])"

text \<open>The whole \<open>for\<close> loop: the values yielded and whether it left through \<open>return\<close>.\<close>

fun for_lines :: "jsstring list \<Rightarrow> json list \<times> bool" where
  "for_lines [] = ([], False)"
| "for_lines (line # lines) =
     (case on_line line of
        None \<Rightarrow> ([], True)
      | Some ys \<Rightarrow> (let (zs, returned) = for_lines lines in (ys @ zs, returned)))"

subsection \<open>The generator \<open>streamChunks\<close> (lines 98 to 121)\<close>

text \<open>
  The variables the generator closes over and updates: \<open>buffer\<close> and the state inside
  \<open>decoder\<close>. (\<open>done\<close> is the loop condition: it is the pattern on the reads left.)
\<close>

record closure =
  buffer :: jsstring
  decoder :: text_decoder

text \<open>
  The response body as the reader sees it: the chunks that \<open>reader.read()\<close> resolves
  to, then either \<open>{ done: true }\<close> or a rejection.
\<close>

datatype 'e stream_end = Closed | Errored 'e

text \<open>
  How the generator ends when the consumer pulls until the end: through \<open>return\<close> at the
  sentinel, by leaving the \<open>while\<close> loop, or with the error of a rejected read.
\<close>

datatype 'e completion = Returned | LoopExit | Threw 'e

record 'e run =
  yielded :: "json list"
  completion :: "'e completion"
  reads :: nat
  buffer_left :: jsstring

text \<open>
  Lines 103 to 105: decode the chunk, append the text to \<open>buffer\<close>, split, and pop the
  last piece back into \<open>buffer\<close>. The result is the closure after line 105 and the
  array \<open>lines\<close> that the \<open>for\<close> loop walks. \<open>split\<close> never gives an empty array, so
  \<open>lines.pop()\<close> is always defined.
\<close>

definition read_lines :: "closure \<Rightarrow> byte list \<Rightarrow> closure \<times> jsstring list" where
  "read_lines st value =
     (let (dec, decoded) = decode (decoder st) value;
          lines = split newline (buffer st @ decoded)
      in (\<lparr>buffer = last lines, decoder = dec\<rparr>, butlast lines))"

text \<open>
  The \<open>while\<close> loop. A read that resolves to \<open>{ done: true }\<close> carries no value and ends
  the loop; a read that rejects throws out of the generator; a read that resolves to a
  chunk (a \<open>Uint8Array\<close> is truthy, also when empty) runs lines 103 to 118.
\<close>

fun streamChunks :: "closure \<Rightarrow> byte list list \<Rightarrow> 'e stream_end \<Rightarrow> 'e run" where
  "streamChunks st [] Closed =
     \<lparr>yielded = [], completion = LoopExit, reads = 1, buffer_left = buffer st\<rparr>"
| "streamChunks st [] (Errored e) =
     \<lparr>yielded = [], completion = Threw e, reads = 1, buffer_left = buffer st\<rparr>"
| "streamChunks st (value # values) fin =
     (let (st', lines) = read_lines st value;
          (ys, returned) = for_lines lines
      in if returned then
           \<lparr>yielded = ys, completion = Returned, reads = 1, buffer_left = buffer st'\<rparr>
         else
           (let r = streamChunks st' values fin
            in r\<lparr>yielded := ys @ yielded r, reads := Suc (reads r)\<rparr>))"

text \<open>The closure as \<open>streamOpenAIChat\<close> creates it (lines 94 and 96).\<close>

definition fresh :: closure where
  "fresh = \<lparr>buffer = [], decoder = new_TextDecoder\<rparr>"

subsection \<open>\<open>streamOpenAIChat\<close> (lines 36 to 123)\<close>

text \<open>
  The function up to the point where it returns the generator. A key is a string or
  \<open>undefined\<close> (\<open>None\<close>); \<open>a || b\<close> is \<open>a\<close> when \<open>a\<close> is truthy and \<open>b\<close> otherwise. The
  body of the request (prompt, instructions, sampling parameters) is assembled from
  arguments that play no part afterwards and is passed as it is. \<open>fetch\<close> is the
  network: it is given the request and answers with a response or rejects.
\<close>

record 'p request =
  authorization :: jsstring
  content :: 'p

record 'e response =
  ok :: bool
  errorText :: jsstring
  body :: "(byte list list \<times> 'e stream_end) option"

datatype 'e failure = MissingKey | ApiError jsstring | NoBody | FetchRejected 'e

definition key_truthy :: "jsstring option \<Rightarrow> bool" where
  "key_truthy k = (case k of None \<Rightarrow> False | Some s \<Rightarrow> s \<noteq> [])"

definition resolve_key :: "jsstring option \<Rightarrow> jsstring option \<Rightarrow> jsstring option" where
  "resolve_key user_key env_key = (if key_truthy user_key then user_key else env_key)"

text \<open>
  The result pairs the requests sent, in order, with what the call gives back: a
  failure, or the generator, shown by its run.
\<close>

definition streamOpenAIChat ::
  "jsstring option \<Rightarrow> jsstring option \<Rightarrow> 'p \<Rightarrow> ('p request \<Rightarrow> 'e + 'e response)
     \<Rightarrow> 'p request list \<times> ('e failure + 'e run)" where
  "streamOpenAIChat user_key env_key input fetch =
     (let OPENAI_API_KEY = resolve_key user_key env_key
      in if \<not> key_truthy OPENAI_API_KEY then ([], Inl MissingKey)
         else
           (let req = \<lparr>authorization = js ''Bearer '' @ the OPENAI_API_KEY, content = input\<rparr>
            in case fetch req of
                 Inl e \<Rightarrow> ([req], Inl (FetchRejected e))
               | Inr resp \<Rightarrow>
                   if \<not> ok resp then ([req], Inl (ApiError (errorText resp)))
                   else
                     (case body resp of
                        None \<Rightarrow> ([req], Inl NoBody)
                      | Some (values, fin) \<Rightarrow>
                          ([req],
                           Inr (streamChunks fresh values fin)))))"

subsection \<open>The stream seen as one text\<close>

text \<open>
  The properties below compare the generator, which sees the bytes chunk by chunk,
  with functions of the whole stream: the text that the decoder produces from all the
  bytes, its complete lines (every piece of the split but the last, which no line
  terminator follows), the sentinel test of lines 107 to 109, what one line yields, and
  the values of the lines before the first sentinel.
\<close>

definition decoded_text :: "byte list \<Rightarrow> jsstring" where
  "decoded_text bytes = snd (decode new_TextDecoder bytes)"

definition complete_lines :: "jsstring \<Rightarrow> jsstring list" where
  "complete_lines s = butlast (split newline s)"

definition is_DONE :: "jsstring \<Rightarrow> bool" where
  "is_DONE line = (startsWith line (js ''data: '') \<and> payload line = js ''[DONE]'')"

definition line_yield :: "jsstring \<Rightarrow> json list" where
  "line_yield line = (case on_line line of None \<Rightarrow> [] | Some ys \<Rightarrow> ys)"

definition deltas_before_DONE :: "jsstring \<Rightarrow> json list" where
  "deltas_before_DONE s =
     concat (map line_yield (takeWhile (\<lambda>l. \<not> is_DONE l) (complete_lines s)))"

definition all_deltas :: "jsstring \<Rightarrow> json list" where
  "all_deltas s = concat (map line_yield (complete_lines s))"

definition when_read_ends :: "'e stream_end \<Rightarrow> 'e completion" where
  "when_read_ends fin = (case fin of Closed \<Rightarrow> LoopExit | Errored e \<Rightarrow> Threw e)"

text \<open>
  The closure between two chunk arrivals, after the given chunks have gone through
  lines 103 to 105, with the candidate lines taken out of the buffer so far, in order.
\<close>

fun drain :: "closure \<Rightarrow> byte list list \<Rightarrow> closure \<times> jsstring list" where
  "drain st [] = (st, [])"
| "drain st (value # values) =
     (let (st', lines) = read_lines st value;
          (st'', more) = drain st' values
      in (st'', lines @ more))"

definition longest_suffix_without :: "'a \<Rightarrow> 'a list \<Rightarrow> 'a list \<Rightarrow> bool" where
  "longest_suffix_without sep b s =
     (suffix b s \<and> sep \<notin> set b \<and> (\<forall>t. suffix t s \<and> sep \<notin> set t \<longrightarrow> length t \<le> length b))"

subsection \<open>Writing example streams\<close>

definition ascii :: "string \<Rightarrow> byte list" where
  "ascii s = map of_char s"

definition quoted :: "string \<Rightarrow> string" where
  "quoted s = CHR 0x22 # s @ [CHR 0x22]"

text \<open>
  The text of an event with the discriminant of line 113 and the given \<open>delta\<close>;
  \<open>delta_prefix\<close> is that text up to the value of \<open>delta\<close>.
\<close>

definition delta_prefix :: string where
  "delta_prefix =
     ''{'' @ quoted ''type'' @ '':'' @ quoted ''response.output_text.delta'' @ '',''
       @ quoted ''delta'' @ '':''"

definition delta_event :: "string \<Rightarrow> string" where
  "delta_event d = delta_prefix @ d @ ''}''"

section \<open>Properties\<close>

subsection \<open>Splitting and decoding\<close>

lemma split_not_Nil [simp]: "split sep xs \<noteq> []"
  by (induction xs) (auto simp: Let_def)

lemma split_no_sep: "sep \<notin> set xs \<Longrightarrow> split sep xs = [xs]"
  by (induction xs) (auto simp: Let_def)

lemma split_append_hd_tl:
  "split sep (a @ b) =
     butlast (split sep a) @ (last (split sep a) @ hd (split sep b)) # tl (split sep b)"
proof (induction a)
  case Nil
  show ?case by simp
next
  case (Cons x a)
  obtain l ls where sp: "split sep a = l # ls"
    by (cases "split sep a") auto
  show ?case
  proof (cases ls)
    case Nil
    with sp Cons show ?thesis by (simp add: Let_def)
  next
    case (Cons m ms)
    with sp Cons.IH show ?thesis by (simp add: Let_def)
  qed
qed

lemma last_split_no_sep: "sep \<notin> set (last (split sep xs))"
proof (induction xs)
  case Nil
  show ?case by simp
next
  case (Cons x xs)
  obtain l ls where sp: "split sep xs = l # ls"
    by (cases "split sep xs") auto
  with Cons show ?case by (cases ls) (auto simp: Let_def)
qed

text \<open>Splitting a longer text: the pieces already complete do not change.\<close>

lemma split_append:
  "split sep (a @ b) = butlast (split sep a) @ split sep (last (split sep a) @ b)"
proof -
  have "split sep (last (split sep a)) = [last (split sep a)]"
    by (rule split_no_sep) (rule last_split_no_sep)
  then have "split sep (last (split sep a) @ b) =
      (last (split sep a) @ hd (split sep b)) # tl (split sep b)"
    by (simp add: split_append_hd_tl [of sep "last (split sep a)" b])
  then show ?thesis by (simp add: split_append_hd_tl [of sep a b])
qed

lemma unsplit:
  "concat (map (\<lambda>l. l @ [sep]) (butlast (split sep xs))) @ last (split sep xs) = xs"
proof (induction xs)
  case Nil
  show ?case by simp
next
  case (Cons x xs)
  obtain l ls where sp: "split sep xs = l # ls"
    by (cases "split sep xs") auto
  with Cons show ?case by (cases ls) (auto simp: Let_def)
qed

lemma complete_lines_append:
  "complete_lines (a @ b) = complete_lines a @ complete_lines (last (split newline a) @ b)"
  unfolding complete_lines_def
  by (subst split_append) (simp add: butlast_append)

lemma last_split_append:
  "last (split sep (a @ b)) = last (split sep (last (split sep a) @ b))"
  by (subst split_append) simp

text \<open>Decoding in two calls gives the text of one call on all the bytes.\<close>

lemma decode_append:
  "decode td (a @ b) =
     (let (td1, s1) = decode td a; (td2, s2) = decode td1 b in (td2, s1 @ s2))"
  by (induction a arbitrary: td) (auto simp: Let_def split: prod.splits)

subsection \<open>The bound of the JSON parser\<close>

text \<open>
  Every call of the parser that succeeds consumes at least one code unit, so the calls
  nest at most twice as deep as the text is long, and the result does not depend on
  the bound once the bound is that large: \<open>None\<close> from \<open>JSON_parse\<close> is a syntax error.
\<close>

lemma skip_ws_length: "length (skip_ws cs) \<le> length cs"
  by (simp add: skip_ws_def length_dropWhile_le)

lemma prepend_Some:
  "prepend x r = Some (ys, rest) \<longleftrightarrow> (\<exists>xs. r = Some (xs, rest) \<and> ys = x # xs)"
  by (cases r) (auto simp: prepend_def)

lemma json_string_shorter: "json_string cs = Some (s, r) \<Longrightarrow> length r < length cs"
  by (induction cs arbitrary: s r rule: json_string.induct)
     (auto simp: prepend_Some split: if_splits list.splits option.splits, fastforce+)

lemma dropWhile_shorter: "takeWhile P xs \<noteq> [] \<Longrightarrow> length (dropWhile P xs) < length xs"
  by (cases xs) (auto simp: le_imp_less_Suc length_dropWhile_le split: if_splits)

lemma json_fraction_length: "json_fraction cs = Some (fp, r) \<Longrightarrow> length r \<le> length cs"
  by (auto simp: json_fraction_def Let_def length_dropWhile_le le_SucI split: list.splits if_splits)

lemma json_exponent_length: "json_exponent cs = Some (e, r) \<Longrightarrow> length r \<le> length cs"
  by (auto simp: json_exponent_def Let_def length_dropWhile_le le_SucI
      split: list.splits if_splits intro: le_trans [OF length_dropWhile_le])

lemma json_number_shorter:
  assumes "json_number cs = Some (q, r)"
  shows "length r < length cs"
proof (cases "\<exists>rest. cs = 0x2D # rest")
  case True
  then obtain rest where cs: "cs = 0x2D # rest" by blast
  from assms obtain fp cs2 e where "takeWhile is_digit rest \<noteq> []"
    and f: "json_fraction (dropWhile is_digit rest) = Some (fp, cs2)"
    and x: "json_exponent cs2 = Some (e, r)"
    by (auto simp: json_number_def cs Let_def split: if_splits option.splits)
  from dropWhile_shorter [OF this(1)] json_fraction_length [OF f] json_exponent_length [OF x]
  show ?thesis by (simp add: cs)
next
  case False
  have pre: "(case cs of [] \<Rightarrow> (False, []) | c # r \<Rightarrow> if c = 0x2D then (True, r) else (False, cs))
      = (False, cs)"
    using False by (auto split: list.splits)
  from assms obtain fp cs2 e where "takeWhile is_digit cs \<noteq> []"
    and f: "json_fraction (dropWhile is_digit cs) = Some (fp, cs2)"
    and x: "json_exponent cs2 = Some (e, r)"
    unfolding json_number_def pre
    by (auto simp: Let_def split: if_splits option.splits)
  from dropWhile_shorter [OF this(1)] json_fraction_length [OF f] json_exponent_length [OF x]
  show ?thesis by linarith
qed

lemma skip_ws_Cons: "skip_ws cs = c # r \<Longrightarrow> length r < length cs"
  using skip_ws_length [of cs] by simp

lemma json_shorter:
  "json_value n cs = Some (v, r) \<Longrightarrow> length r < length cs"
  "json_elements n cs = Some (vs, r') \<Longrightarrow> length r' < length cs"
  "json_members n cs = Some (kvs, r'') \<Longrightarrow> length r'' < length cs"
proof (induction n cs and n cs and n cs arbitrary: v r and vs r' and kvs r''
    rule: json_value_json_elements_json_members.induct)
  case (1 cs)
  then show ?case by simp
next
  case (2 n cs)
  from "2.prems" obtain c r0 where sk: "skip_ws cs = c # r0"
    by (auto split: list.splits)
  note l0 = skip_ws_Cons [OF sk]
  consider (obj) "c = 0x7B" | (arr) "c \<noteq> 0x7B" "c = 0x5B" | (str) "c \<noteq> 0x7B" "c \<noteq> 0x5B" "c = 0x22"
    | (other) "c \<noteq> 0x7B" "c \<noteq> 0x5B" "c \<noteq> 0x22"
    by blast
  then show ?case
  proof cases
    case obj
    with "2.prems" sk obtain c1 r1 where sk1: "skip_ws r0 = c1 # r1"
      by (auto split: list.splits)
    note l1 = skip_ws_Cons [OF sk1]
    show ?thesis
    proof (cases "c1 = 0x7D")
      case True
      with "2.prems" sk obj sk1 l0 l1 show ?thesis by auto
    next
      case False
      with "2.prems" sk obj sk1 obtain kvs where "json_members n (c1 # r1) = Some (kvs, r)"
        by auto
      from "2.IH"(1) [OF sk obj sk1 False this] l0 l1 show ?thesis by simp
    qed
  next
    case arr
    with "2.prems" sk obtain c1 r1 where sk1: "skip_ws r0 = c1 # r1"
      by (auto split: list.splits)
    note l1 = skip_ws_Cons [OF sk1]
    show ?thesis
    proof (cases "c1 = 0x5D")
      case True
      with "2.prems" sk arr sk1 l0 l1 show ?thesis by auto
    next
      case False
      with "2.prems" sk arr sk1 obtain vs where "json_elements n (c1 # r1) = Some (vs, r)"
        by auto
      from "2.IH"(2) [OF sk arr sk1 False this] l0 l1 show ?thesis by simp
    qed
  next
    case str
    with "2.prems" sk obtain s where "json_string r0 = Some (s, r)"
      by auto
    from json_string_shorter [OF this] l0 show ?thesis by simp
  next
    case other
    with "2.prems" sk l0 show ?thesis
      by (auto split: if_splits dest!: json_number_shorter)
  qed
next
  case (3 cs)
  then show ?case by simp
next
  case (4 n cs)
  from "4.prems" obtain v r0 where jv: "json_value n cs = Some (v, r0)"
    by (auto split: option.splits)
  note l0 = "4.IH"(1) [OF jv]
  from "4.prems" jv obtain c r1 where sk: "skip_ws r0 = c # r1"
    by (auto split: list.splits)
  note l1 = skip_ws_Cons [OF sk]
  show ?case
  proof (cases "c = 0x2C")
    case True
    with "4.prems" jv sk obtain vs' where "json_elements n r1 = Some (vs', r')"
      by (auto simp: prepend_Some)
    from "4.IH"(2) [OF jv refl sk True this] l0 l1 show ?thesis by simp
  next
    case False
    with "4.prems" jv sk l0 l1 show ?thesis
      by (auto split: if_splits)
  qed
next
  case (5 cs)
  then show ?case by simp
next
  case (6 n cs)
  from "6.prems" obtain q r0 where sk: "skip_ws cs = q # r0"
    by (auto split: list.splits)
  note l0 = skip_ws_Cons [OF sk]
  from "6.prems" sk have q: "\<not> q \<noteq> 0x22"
    by (auto split: if_splits)
  from "6.prems" sk q obtain k r1 where js: "json_string r0 = Some (k, r1)"
    by (auto split: option.splits)
  note l1 = json_string_shorter [OF js]
  from "6.prems" sk q js obtain c r2 where sk2: "skip_ws r1 = c # r2"
    by (auto split: list.splits)
  note l2 = skip_ws_Cons [OF sk2]
  from "6.prems" sk q js sk2 have c: "\<not> c \<noteq> 0x3A"
    by (auto split: if_splits)
  from "6.prems" sk q js sk2 c obtain v r3 where jv: "json_value n r2 = Some (v, r3)"
    by (auto split: option.splits)
  note l3 = "6.IH"(1) [OF sk q js refl sk2 c jv]
  from "6.prems" sk q js sk2 c jv obtain c' r4 where sk4: "skip_ws r3 = c' # r4"
    by (auto split: list.splits)
  note l4 = skip_ws_Cons [OF sk4]
  show ?case
  proof (cases "c' = 0x2C")
    case True
    with "6.prems" sk q js sk2 c jv sk4 obtain kvs' where "json_members n r4 = Some (kvs', r'')"
      by (auto simp: prepend_Some)
    from "6.IH"(2) [OF sk q js refl sk2 c jv refl sk4 True this] l0 l1 l2 l3 l4
    show ?thesis by simp
  next
    case False
    with "6.prems" sk q js sk2 c jv sk4 l0 l1 l2 l3 l4 show ?thesis
      by (auto split: if_splits)
  qed
qed

lemma json_fuel:
  "2 * length cs + 1 \<le> n \<Longrightarrow> 2 * length cs + 1 \<le> m \<Longrightarrow> json_value n cs = json_value m cs"
  "2 * length cs + 2 \<le> n \<Longrightarrow> 2 * length cs + 2 \<le> m
     \<Longrightarrow> json_elements n cs = json_elements m cs"
  "2 * length cs + 2 \<le> n \<Longrightarrow> 2 * length cs + 2 \<le> m
     \<Longrightarrow> json_members n cs = json_members m cs"
proof (induction n cs and n cs and n cs arbitrary: m and m and m
    rule: json_value_json_elements_json_members.induct)
  case (1 cs)
  then show ?case by simp
next
  case (2 n cs)
  from "2.prems" obtain m' where m: "m = Suc m'"
    by (cases m) auto
  have A: "json_members n (c1 # r1) = json_members m' (c1 # r1)"
    if "skip_ws cs = c # r0" "c = 0x7B" "skip_ws r0 = c1 # r1" "c1 \<noteq> 0x7D" for c r0 c1 r1
    using "2.IH"(1) [OF that, of m'] skip_ws_Cons [OF that(1)] skip_ws_Cons [OF that(3)]
      "2.prems" m by simp
  have B: "json_elements n (c1 # r1) = json_elements m' (c1 # r1)"
    if "skip_ws cs = c # r0" "c \<noteq> 0x7B" "c = 0x5B" "skip_ws r0 = c1 # r1" "c1 \<noteq> 0x5D"
    for c r0 c1 r1
    using "2.IH"(2) [OF that, of m'] skip_ws_Cons [OF that(1)] skip_ws_Cons [OF that(4)]
      "2.prems" m by simp
  show ?case
    unfolding m by (auto simp: A B split: list.splits)
next
  case (3 cs)
  then show ?case by simp
next
  case (4 n cs)
  from "4.prems" obtain m' where m: "m = Suc m'"
    by (cases m) auto
  have A: "json_value n cs = json_value m' cs"
    using "4.IH"(1) [of m'] "4.prems" m by simp
  have B: "json_elements n r1 = json_elements m' r1"
    if "json_value n cs = Some (v, r0)" "skip_ws r0 = c # r1" "c = 0x2C" for v r0 c r1
    using "4.IH"(2) [OF that(1) refl that(2,3), of m'] json_shorter(1) [OF that(1)]
      skip_ws_Cons [OF that(2)] "4.prems" m by simp
  show ?case
    unfolding m by (auto simp: A [symmetric] B split: list.splits option.splits)
next
  case (5 cs)
  then show ?case by simp
next
  case (6 n cs)
  from "6.prems" obtain m' where m: "m = Suc m'"
    by (cases m) auto
  have A: "json_value n r2 = json_value m' r2"
    if "skip_ws cs = q # r0" "\<not> q \<noteq> 0x22" "json_string r0 = Some (k, r1)"
      "skip_ws r1 = c # r2" "\<not> c \<noteq> 0x3A" for q r0 k r1 c r2
    using "6.IH"(1) [OF that(1,2,3) refl that(4,5), of m'] skip_ws_Cons [OF that(1)]
      json_string_shorter [OF that(3)] skip_ws_Cons [OF that(4)] "6.prems" m by simp
  have B: "json_members n r4 = json_members m' r4"
    if "skip_ws cs = q # r0" "\<not> q \<noteq> 0x22" "json_string r0 = Some (k, r1)"
      "skip_ws r1 = c # r2" "\<not> c \<noteq> 0x3A" "json_value n r2 = Some (v, r3)"
      "skip_ws r3 = c' # r4" "c' = 0x2C" for q r0 k r1 c r2 v r3 c' r4
    using "6.IH"(2) [OF that(1,2,3) refl that(4,5,6) refl that(7,8), of m']
      skip_ws_Cons [OF that(1)] json_string_shorter [OF that(3)] skip_ws_Cons [OF that(4)]
      json_shorter(1) [OF that(6)] skip_ws_Cons [OF that(7)] "6.prems" m by simp
  show ?case
    unfolding m by (auto simp: A [symmetric] B split: list.splits option.splits)
qed

text \<open>The bound that \<open>JSON_parse\<close> starts with is never what makes a text fail.\<close>

lemma JSON_parse_fuel:
  assumes "2 * length s + 2 \<le> n"
  shows "JSON_parse s =
     (case json_value n s of
        None \<Rightarrow> None
      | Some (v, rest) \<Rightarrow> if skip_ws rest = [] then Some v else None)"
  unfolding JSON_parse_def
  using json_fuel(1) [of s "2 * length s + 2" n] assms by simp

subsection \<open>The \<open>for\<close> loop\<close>

lemma on_line_None_iff: "on_line l = None \<longleftrightarrow> is_DONE l"
  by (auto simp: on_line_def is_DONE_def Let_def split: sum.splits)

lemma for_lines_fst:
  "fst (for_lines ls) = concat (map line_yield (takeWhile (\<lambda>l. \<not> is_DONE l) ls))"
proof (induction ls)
  case Nil
  show ?case by simp
next
  case (Cons l ls)
  show ?case
  proof (cases "on_line l")
    case None
    then show ?thesis using on_line_None_iff [of l] by simp
  next
    case (Some ys)
    then have "\<not> is_DONE l" using on_line_None_iff [of l] by simp
    with Some Cons show ?thesis
      by (simp add: line_yield_def split_beta)
  qed
qed

lemma for_lines_snd: "snd (for_lines ls) \<longleftrightarrow> (\<exists>l \<in> set ls. is_DONE l)"
proof (induction ls)
  case Nil
  show ?case by simp
next
  case (Cons l ls)
  show ?case
  proof (cases "on_line l")
    case None
    then show ?thesis using on_line_None_iff [of l] by simp
  next
    case (Some ys)
    then have "\<not> is_DONE l" using on_line_None_iff [of l] by simp
    with Some Cons show ?thesis
      by (simp add: split_beta)
  qed
qed

lemma for_lines_append:
  "for_lines (xs @ ys) =
     (if snd (for_lines xs) then for_lines xs
      else (fst (for_lines xs) @ fst (for_lines ys), snd (for_lines ys)))"
  by (induction xs) (auto simp: split_beta split: option.splits)

subsection \<open>The generator in terms of the whole text\<close>

lemma read_lines_eq:
  "read_lines st v =
     (\<lparr>buffer = last (split newline (buffer st @ snd (decode (decoder st) v))),
       decoder = fst (decode (decoder st) v)\<rparr>,
      complete_lines (buffer st @ snd (decode (decoder st) v)))"
  by (simp add: read_lines_def complete_lines_def split_beta Let_def)

text \<open>
  From a closure whose buffer holds no line terminator, the run over any chunks is
  the \<open>for\<close> loop over the complete lines of the buffer followed by the text of all
  the chunks.
\<close>

lemma streamChunks_char:
  fixes st :: closure and fin :: "'e stream_end"
  defines "T values \<equiv> buffer st @ snd (decode (decoder st) (concat values))"
  assumes inv: "newline \<notin> set (buffer st)"
  shows "yielded (streamChunks st values fin) = fst (for_lines (complete_lines (T values)))
    \<and> completion (streamChunks st values fin) =
        (if snd (for_lines (complete_lines (T values))) then Returned else when_read_ends fin)
    \<and> (\<not> snd (for_lines (complete_lines (T values))) \<longrightarrow>
          reads (streamChunks st values fin) = Suc (length values)
        \<and> buffer_left (streamChunks st values fin) = last (split newline (T values)))"
  using inv unfolding T_def
proof (induction "values" arbitrary: st)
  case Nil
  then show ?case
    by (cases fin) (simp_all add: when_read_ends_def complete_lines_def split_no_sep)
next
  case (Cons v vs)
  define d where "d = snd (decode (decoder st) v)"
  define dec where "dec = fst (decode (decoder st) v)"
  define st' where "st' = \<lparr>buffer = last (split newline (buffer st @ d)), decoder = dec\<rparr>"
  define rest where "rest = snd (decode dec (concat vs))"
  have rl: "read_lines st v = (st', complete_lines (buffer st @ d))"
    by (simp add: read_lines_eq st'_def d_def dec_def)
  have T: "buffer st @ snd (decode (decoder st) (concat (v # vs))) = (buffer st @ d) @ rest"
    by (simp add: decode_append split_beta d_def dec_def rest_def)
  have T': "buffer st' @ snd (decode (decoder st') (concat vs))
      = last (split newline (buffer st @ d)) @ rest"
    by (simp add: st'_def rest_def)
  have cl: "complete_lines ((buffer st @ d) @ rest)
      = complete_lines (buffer st @ d)
        @ complete_lines (last (split newline (buffer st @ d)) @ rest)"
    by (rule complete_lines_append)
  have ls: "last (split newline ((buffer st @ d) @ rest))
      = last (split newline (last (split newline (buffer st @ d)) @ rest))"
    by (rule last_split_append)
  have "newline \<notin> set (buffer st')"
    by (simp add: st'_def last_split_no_sep)
  note IH = Cons.IH [OF this, unfolded T']
  show ?case
    unfolding T cl ls
    using IH
    by (simp add: rl for_lines_append split_beta Let_def)
qed

lemma fresh_inv: "newline \<notin> set (buffer fresh)"
  by (simp add: fresh_def)

lemma streamChunks_fresh:
  "yielded (streamChunks fresh values fin)
     = fst (for_lines (complete_lines (decoded_text (concat values))))
   \<and> completion (streamChunks fresh values fin)
     = (if snd (for_lines (complete_lines (decoded_text (concat values))))
        then Returned else when_read_ends fin)
   \<and> (\<not> snd (for_lines (complete_lines (decoded_text (concat values)))) \<longrightarrow>
         reads (streamChunks fresh values fin) = Suc (length values)
       \<and> buffer_left (streamChunks fresh values fin)
           = last (split newline (decoded_text (concat values))))"
  using streamChunks_char [OF fresh_inv, of "values" fin]
  by (simp add: fresh_def decoded_text_def)

text \<open>The closure between chunks, and the lines taken out so far, as one text sees them.\<close>

lemma drain_char:
  assumes "newline \<notin> set (buffer st)"
  shows "drain st values =
     (\<lparr>buffer = last (split newline (buffer st @ snd (decode (decoder st) (concat values)))),
       decoder = fst (decode (decoder st) (concat values))\<rparr>,
      complete_lines (buffer st @ snd (decode (decoder st) (concat values))))"
  using assms
proof (induction "values" arbitrary: st)
  case Nil
  then show ?case by (simp add: complete_lines_def split_no_sep)
next
  case (Cons v vs)
  define st' where "st' = fst (read_lines st v)"
  have b: "buffer st' = last (split newline (buffer st @ snd (decode (decoder st) v)))"
    and d: "decoder st' = fst (decode (decoder st) v)"
    by (simp_all add: st'_def read_lines_eq)
  have "newline \<notin> set (buffer st')"
    by (simp add: b last_split_no_sep)
  note IH = Cons.IH [OF this]
  have rl: "read_lines st v = (st', complete_lines (buffer st @ snd (decode (decoder st) v)))"
    by (simp add: st'_def read_lines_eq)
  show ?case
    using complete_lines_append [of "buffer st @ snd (decode (decoder st) v)"
        "snd (decode (fst (decode (decoder st) v)) (concat vs))"]
      last_split_append [of newline "buffer st @ snd (decode (decoder st) v)"
        "snd (decode (fst (decode (decoder st) v)) (concat vs))"]
    by (simp add: rl IH b d decode_append split_beta)
qed

text \<open>
  As long as no sentinel has come, the run over more chunks continues from the closure
  that the chunks so far have left.
\<close>

lemma streamChunks_prefix:
  assumes "newline \<notin> set (buffer st)"
    and "\<not> snd (for_lines (snd (drain st vs1)))"
  shows "streamChunks st (vs1 @ rest) fin =
     (let r = streamChunks (fst (drain st vs1)) rest fin
      in r\<lparr>yielded := fst (for_lines (snd (drain st vs1))) @ yielded r,
           reads := length vs1 + reads r\<rparr>)"
  using assms
proof (induction vs1 arbitrary: st)
  case Nil
  then show ?case by simp
next
  case (Cons v vs)
  obtain st' ls where rl: "read_lines st v = (st', ls)"
    by (cases "read_lines st v")
  have "buffer st' = last (split newline (buffer st @ snd (decode (decoder st) v)))"
    using rl by (auto simp: read_lines_eq)
  then have inv': "newline \<notin> set (buffer st')"
    by (simp add: last_split_no_sep)
  have dr: "drain st (v # vs) = (fst (drain st' vs), ls @ snd (drain st' vs))"
    by (simp add: rl split_beta)
  from Cons.prems(2) [unfolded dr]
  have no1: "\<not> snd (for_lines ls)" and no2: "\<not> snd (for_lines (snd (drain st' vs)))"
    by (auto simp: for_lines_append split: if_splits)
  note IH = Cons.IH [OF inv' no2]
  show ?case
    using no1 by (simp add: rl IH dr for_lines_append split_beta Let_def)
qed

subsection \<open>One line\<close>

lemma DONE_is_not_JSON: "JSON_parse (js ''[DONE]'') = None"
  by code_simp

text \<open>What a line yields when its payload parses as an object.\<close>

lemma on_line_object:
  assumes "startsWith line (js ''data: '')"
      and "JSON_parse (payload line) = Some (JObj members)"
  shows "on_line line = Some
     (if field members (js ''type'') = Some (JStr (js ''response.output_text.delta'')) then
        (case field members (js ''delta'') of
           None \<Rightarrow> []
         | Some d \<Rightarrow> if truthy d then [d] else [])
      else [])"
proof -
  have "payload line \<noteq> js ''[DONE]''"
    using assms(2) DONE_is_not_JSON by auto
  then show ?thesis
    using assms by (simp add: on_line_def try_block_def split: option.splits)
qed

text \<open>A payload that parses as anything but an object yields nothing.\<close>

lemma on_line_not_object:
  assumes "startsWith line (js ''data: '')"
      and "JSON_parse (payload line) = Some parsed"
      and "\<forall>members. parsed \<noteq> JObj members"
  shows "on_line line = Some []"
proof -
  have "payload line \<noteq> js ''[DONE]''"
    using assms(2) DONE_is_not_JSON by auto
  moreover have "get parsed (js ''type'') = Inl TypeError \<or> get parsed (js ''type'') = Inr None"
    using assms(3) by (cases parsed) auto
  ultimately show ?thesis
    using assms(1,2) by (auto simp: on_line_def try_block_def)
qed

subsection \<open>The last piece of the split\<close>

lemma last_split_suffix: "suffix (last (split sep xs)) xs"
  using unsplit [of sep xs] by (metis suffixI)

lemma last_split_longest:
  assumes "suffix t xs" and "sep \<notin> set t"
  shows "length t \<le> length (last (split sep xs))"
proof -
  from assms(1) obtain p where xs: "xs = p @ t"
    by (auto simp: suffix_def)
  have "last (split sep xs) = last (split sep (last (split sep p) @ t))"
    unfolding xs by (rule last_split_append)
  also have "split sep (last (split sep p) @ t) = [last (split sep p) @ t]"
    by (rule split_no_sep) (simp add: last_split_no_sep assms(2))
  finally show ?thesis by simp
qed

lemma complete_lines_unterminated:
  assumes "newline \<notin> set r"
  shows "complete_lines (t @ r) = complete_lines t"
    and "last (split newline (t @ r)) = last (split newline t) @ r"
proof -
  have one: "split newline (last (split newline t) @ r) = [last (split newline t) @ r]"
    by (rule split_no_sep) (simp add: last_split_no_sep assms)
  have "complete_lines (last (split newline t) @ r) = []"
    unfolding complete_lines_def one by simp
  then show "complete_lines (t @ r) = complete_lines t"
    unfolding complete_lines_append [of t r] by simp
  show "last (split newline (t @ r)) = last (split newline t) @ r"
    unfolding last_split_append [of newline t r] one by simp
qed

lemma last_split_terminated:
  assumes "t = [] \<or> last t = sep"
  shows "last (split sep t) = []"
proof (cases "t = []")
  case True
  then show ?thesis by simp
next
  case False
  with assms obtain p where t: "t = p @ [sep]"
    by (metis append_butlast_last_id)
  have "split sep (last (split sep p) @ [sep]) = [last (split sep p), []]"
    using split_append_hd_tl [of sep "last (split sep p)" "[sep]"]
      split_no_sep [OF last_split_no_sep, of sep p]
    by (simp add: Let_def)
  then show ?thesis
    unfolding t by (simp add: last_split_append [of sep p "[sep]"])
qed

lemma no_DONE_all:
  assumes "\<not> (\<exists>l \<in> set (complete_lines s). is_DONE l)"
  shows "fst (for_lines (complete_lines s)) = all_deltas s"
    and "\<not> snd (for_lines (complete_lines s))"
proof -
  from assms have tw: "takeWhile (\<lambda>l. \<not> is_DONE l) (complete_lines s) = complete_lines s"
    by simp
  show "fst (for_lines (complete_lines s)) = all_deltas s"
    unfolding for_lines_fst tw all_deltas_def ..
  from assms show "\<not> snd (for_lines (complete_lines s))"
    by (simp add: for_lines_snd)
qed

text \<open>The run of a stream without a sentinel line.\<close>

lemma run_without_DONE:
  assumes "\<not> (\<exists>l \<in> set (complete_lines (decoded_text (concat values))). is_DONE l)"
  shows "streamChunks fresh values fin =
     \<lparr>yielded = all_deltas (decoded_text (concat values)),
      completion = when_read_ends fin,
      reads = Suc (length values),
      buffer_left = last (split newline (decoded_text (concat values)))\<rparr>"
  using streamChunks_fresh [of "values" fin] no_DONE_all [OF assms]
  by (cases "streamChunks fresh values fin") simp

section \<open>The claims\<close>

text \<open>
  C1. The sequence the generator yields is a function of the concatenated bytes alone,
  however they are cut into chunks: it is the values of the complete lines before the
  first line that is the record \<open>data: [DONE]\<close>, in order. In particular one chunk per
  byte and one chunk for the whole stream yield the same sequence. When some complete
  line is that record, the generator ends through \<open>return\<close>, with no error. (What one
  record yields is what lines 107 to 115 make of it; C3 and C4 say which records
  yield.)
\<close>

theorem C1_chunking_invariant:
  assumes "concat values = bytes"
  shows "yielded (streamChunks fresh values fin) = deltas_before_DONE (decoded_text bytes)
       \<and> yielded (streamChunks fresh (map (\<lambda>b. [b]) bytes) fin)
           = yielded (streamChunks fresh [bytes] fin)
       \<and> ((\<exists>l \<in> set (complete_lines (decoded_text bytes)). is_DONE l) \<longrightarrow>
            completion (streamChunks fresh values fin) = Returned)"
proof -
  have any: "yielded (streamChunks fresh vs fin) = deltas_before_DONE (decoded_text bytes)"
    if "concat vs = bytes" for vs
    using streamChunks_fresh [of vs fin] that
    by (simp add: for_lines_fst deltas_before_DONE_def)
  have "concat (map (\<lambda>b. [b]) bytes) = bytes"
    by (induction bytes) simp_all
  then have bytewise: "yielded (streamChunks fresh (map (\<lambda>b. [b]) bytes) fin)
      = deltas_before_DONE (decoded_text bytes)"
    by (rule any)
  have "concat [bytes] = bytes"
    by simp
  then have whole: "yielded (streamChunks fresh [bytes] fin)
      = deltas_before_DONE (decoded_text bytes)"
    by (rule any)
  have returned: "completion (streamChunks fresh values fin) = Returned"
    if "\<exists>l \<in> set (complete_lines (decoded_text bytes)). is_DONE l"
    using streamChunks_fresh [of "values" fin] assms that
    by (simp add: for_lines_snd)
  show ?thesis
  proof (intro conjI impI)
    show "yielded (streamChunks fresh values fin) = deltas_before_DONE (decoded_text bytes)"
      by (rule any [OF assms])
    show "yielded (streamChunks fresh (map (\<lambda>b. [b]) bytes) fin)
        = yielded (streamChunks fresh [bytes] fin)"
      by (simp only: bytewise whole)
    show "completion (streamChunks fresh values fin) = Returned"
      if "\<exists>l \<in> set (complete_lines (decoded_text bytes)). is_DONE l"
      using that by (rule returned)
  qed
qed

text \<open>
  An instance: the record carries \<open>H\<close>, U+00E9 and \<open>l\<close>; the first chunk ends between
  the two bytes of U+00E9 and the second ends inside the marker of the sentinel line.
\<close>

theorem C1_chunking_invariant_witness:
  "(\<exists>l \<in> set (complete_lines (decoded_text
        ((ascii (''data: '' @ delta_prefix @ [CHR 0x22] @ ''H'') @ [0xC3])
         @ ([0xA9] @ ascii (''l'' @ [CHR 0x22] @ ''}'') @ [0x0A] @ ascii ''da'')
         @ (ascii ''ta: [DONE]'' @ [0x0A])))). is_DONE l)
   \<and> streamChunks fresh
        [ascii (''data: '' @ delta_prefix @ [CHR 0x22] @ ''H'') @ [0xC3],
         [0xA9] @ ascii (''l'' @ [CHR 0x22] @ ''}'') @ [0x0A] @ ascii ''da'',
         ascii ''ta: [DONE]'' @ [0x0A]] (Closed :: unit stream_end)
       = \<lparr>yielded = [JStr [0x48, 0xE9, 0x6C]], completion = Returned, reads = 3,
          buffer_left = []\<rparr>
   \<and> yielded (streamChunks fresh
        [ascii (''data: '' @ delta_prefix @ [CHR 0x22] @ ''H'') @ [0xC3],
         [0xA9] @ ascii (''l'' @ [CHR 0x22] @ ''}'') @ [0x0A] @ ascii ''da'',
         ascii ''ta: [DONE]'' @ [0x0A]] (Closed :: unit stream_end))
       = deltas_before_DONE (decoded_text
        ((ascii (''data: '' @ delta_prefix @ [CHR 0x22] @ ''H'') @ [0xC3])
         @ ([0xA9] @ ascii (''l'' @ [CHR 0x22] @ ''}'') @ [0x0A] @ ascii ''da'')
         @ (ascii ''ta: [DONE]'' @ [0x0A])))"
proof -
  let ?c1 = "ascii (''data: '' @ delta_prefix @ [CHR 0x22] @ ''H'') @ [0xC3]"
  let ?c2 = "[0xA9] @ ascii (''l'' @ [CHR 0x22] @ ''}'') @ [0x0A] @ ascii ''da''"
  let ?c3 = "ascii ''ta: [DONE]'' @ [0x0A]"
  have h1: "\<exists>l \<in> set (complete_lines (decoded_text (?c1 @ ?c2 @ ?c3))). is_DONE l"
    by code_simp
  have h2: "concat [?c1, ?c2, ?c3] = ?c1 @ ?c2 @ ?c3"
    by simp
  have run: "streamChunks fresh [?c1, ?c2, ?c3] (Closed :: unit stream_end)
       = \<lparr>yielded = [JStr [0x48, 0xE9, 0x6C]], completion = Returned, reads = 3,
          buffer_left = []\<rparr>"
    by code_simp
  from C1_chunking_invariant [OF h2, of "Closed :: unit stream_end"] h1 run
  show ?thesis by (simp only: simp_thms)
qed

text \<open>
  C2. Let the first sentinel line become complete with the chunk \<open>value\<close>: no complete
  line of the chunks \<open>before\<close> is a sentinel, and one of \<open>before\<close> with \<open>value\<close> is. Then
  the generator ends through \<open>return\<close> while handling \<open>value\<close>: it yields the values of the
  lines before the sentinel and nothing of the lines after it, it has called
  \<open>reader.read()\<close> once per chunk up to \<open>value\<close> and never again, and the result is the
  same whatever chunks come \<open>later\<close> and however the stream would have ended.
\<close>

theorem C2_sentinel_is_final:
  assumes "\<not> (\<exists>l \<in> set (complete_lines (decoded_text (concat before))). is_DONE l)"
      and "\<exists>l \<in> set (complete_lines (decoded_text (concat (before @ [value])))). is_DONE l"
  shows "streamChunks fresh (before @ value # later) fin =
     \<lparr>yielded = deltas_before_DONE (decoded_text (concat (before @ [value]))),
      completion = Returned,
      reads = Suc (length before),
      buffer_left = last (split newline (decoded_text (concat (before @ [value]))))\<rparr>"
proof -
  define st where "st = fst (drain fresh before)"
  have dr: "drain fresh before =
      (\<lparr>buffer = last (split newline (decoded_text (concat before))),
        decoder = fst (decode new_TextDecoder (concat before))\<rparr>,
       complete_lines (decoded_text (concat before)))"
    using drain_char [OF fresh_inv, of before] by (simp add: fresh_def decoded_text_def)
  have no: "\<not> snd (for_lines (snd (drain fresh before)))"
    using assms(1) by (simp add: dr for_lines_snd)
  have pre: "streamChunks fresh (before @ value # later) fin =
     (let r = streamChunks st (value # later) fin
      in r\<lparr>yielded := fst (for_lines (snd (drain fresh before))) @ yielded r,
           reads := length before + reads r\<rparr>)"
    unfolding st_def by (rule streamChunks_prefix [OF fresh_inv no])
  define d where "d = snd (decode (decoder st) value)"
  have whole: "decoded_text (concat (before @ [value])) = decoded_text (concat before) @ d"
    by (simp add: decoded_text_def decode_append split_beta d_def st_def dr)
  have cl: "complete_lines (decoded_text (concat (before @ [value])))
      = complete_lines (decoded_text (concat before)) @ complete_lines (buffer st @ d)"
    unfolding whole by (subst complete_lines_append) (simp add: st_def dr)
  have lb: "last (split newline (decoded_text (concat (before @ [value]))))
      = last (split newline (buffer st @ d))"
    unfolding whole by (subst last_split_append) (simp add: st_def dr)
  have rl: "read_lines st value =
      (\<lparr>buffer = last (split newline (buffer st @ d)), decoder = fst (decode (decoder st) value)\<rparr>,
       complete_lines (buffer st @ d))"
    by (simp add: read_lines_eq d_def)
  have hit: "snd (for_lines (complete_lines (buffer st @ d)))"
    using assms(1) assms(2) [unfolded cl] by (auto simp: for_lines_snd)
  have ys: "deltas_before_DONE (decoded_text (concat (before @ [value])))
      = fst (for_lines (snd (drain fresh before))) @ fst (for_lines (complete_lines (buffer st @ d)))"
    unfolding deltas_before_DONE_def for_lines_fst [symmetric] cl
    using no by (simp add: for_lines_append dr)
  show ?thesis
    unfolding pre ys lb using hit
    by (simp add: rl split_beta Let_def)
qed

text \<open>
  An instance: the sentinel is followed in its chunk by a record that would yield; one
  more chunk and a failing read would follow.
\<close>

theorem C2_sentinel_is_final_witness:
  "\<not> (\<exists>l \<in> set (complete_lines (decoded_text (concat
          [ascii (''data: '' @ delta_event (quoted ''a'')) @ [0x0A]]))). is_DONE l)
   \<and> (\<exists>l \<in> set (complete_lines (decoded_text (concat
          ([ascii (''data: '' @ delta_event (quoted ''a'')) @ [0x0A]]
           @ [ascii ''data: [DONE]'' @ [0x0A]
              @ ascii (''data: '' @ delta_event (quoted ''b'')) @ [0x0A]])))). is_DONE l)
   \<and> streamChunks fresh
        ([ascii (''data: '' @ delta_event (quoted ''a'')) @ [0x0A]]
         @ (ascii ''data: [DONE]'' @ [0x0A]
            @ ascii (''data: '' @ delta_event (quoted ''b'')) @ [0x0A])
         # [ascii (''data: '' @ delta_event (quoted ''c'')) @ [0x0A]])
        (Errored ''connection reset'')
     = \<lparr>yielded = [JStr (js ''a'')], completion = Returned, reads = 2, buffer_left = []\<rparr>"
proof -
  let ?before = "[ascii (''data: '' @ delta_event (quoted ''a'')) @ [0x0A]]"
  let ?chunk = "ascii ''data: [DONE]'' @ [0x0A]
              @ ascii (''data: '' @ delta_event (quoted ''b'')) @ [0x0A]"
  let ?later = "[ascii (''data: '' @ delta_event (quoted ''c'')) @ [0x0A]]"
  have h1: "\<not> (\<exists>l \<in> set (complete_lines (decoded_text (concat ?before))). is_DONE l)"
    by code_simp
  have h2: "\<exists>l \<in> set (complete_lines (decoded_text (concat (?before @ [?chunk])))). is_DONE l"
    by code_simp
  have ys: "deltas_before_DONE (decoded_text (concat (?before @ [?chunk]))) = [JStr (js ''a'')]"
    by code_simp
  have bl: "last (split newline (decoded_text (concat (?before @ [?chunk])))) = []"
    by code_simp
  have n: "Suc (length ?before) = 2"
    by simp
  from C2_sentinel_is_final [OF h1 h2, of ?later "Errored ''connection reset''"] h1 h2
  show ?thesis
    unfolding ys bl n by (simp only: simp_thms)
qed

text \<open>
  C3. For a line with the marker whose payload parses as an object: every value the line
  yields is the member \<open>delta\<close> of an object whose member \<open>type\<close> is the string
  \<open>response.output_text.delta\<close>, and it is not the empty string; and when \<open>type\<close> is
  anything else or missing, or \<open>delta\<close> is missing or the empty string, the iteration
  yields nothing, throws nothing and goes on to the next line.
\<close>

theorem C3_only_delta_events_yield:
  assumes "startsWith line (js ''data: '')"
      and "JSON_parse (payload line) = Some (JObj members)"
  shows "(\<forall>v \<in> set (line_yield line).
            field members (js ''type'') = Some (JStr (js ''response.output_text.delta''))
          \<and> field members (js ''delta'') = Some v \<and> v \<noteq> JStr [])
       \<and> (field members (js ''type'') \<noteq> Some (JStr (js ''response.output_text.delta''))
            \<or> field members (js ''delta'') = None
            \<or> field members (js ''delta'') = Some (JStr [])
          \<longrightarrow> on_line line = Some [])"
proof (cases "field members (js ''type'') = Some (JStr (js ''response.output_text.delta''))")
  case False
  then show ?thesis
    using on_line_object [OF assms] by (simp add: line_yield_def)
next
  case True
  show ?thesis
  proof (cases "field members (js ''delta'')")
    case None
    with True show ?thesis
      using on_line_object [OF assms] by (simp add: line_yield_def)
  next
    case (Some d)
    with True have "on_line line = Some (if truthy d then [d] else [])"
      using on_line_object [OF assms] by simp
    moreover have "\<not> truthy (JStr [])"
      by simp
    ultimately show ?thesis
      using True Some by (auto simp: line_yield_def)
  qed
qed

theorem C3_only_delta_events_yield_witness:
  "startsWith (js (''data: '' @ delta_event (quoted ''Hi''))) (js ''data: '')
   \<and> JSON_parse (payload (js (''data: '' @ delta_event (quoted ''Hi''))))
       = Some (JObj [(js ''type'', JStr (js ''response.output_text.delta'')),
                     (js ''delta'', JStr (js ''Hi''))])
   \<and> line_yield (js (''data: '' @ delta_event (quoted ''Hi''))) = [JStr (js ''Hi'')]
   \<and> field [(js ''type'', JStr (js ''response.output_text.delta'')),
             (js ''delta'', JStr (js ''Hi''))] (js ''delta'') = Some (JStr (js ''Hi''))
   \<and> startsWith (js (''data: '' @ delta_event (quoted ''''))) (js ''data: '')
   \<and> JSON_parse (payload (js (''data: '' @ delta_event (quoted ''''))))
       = Some (JObj [(js ''type'', JStr (js ''response.output_text.delta'')),
                     (js ''delta'', JStr [])])
   \<and> on_line (js (''data: '' @ delta_event (quoted ''''))) = Some []"
proof -
  let ?l1 = "js (''data: '' @ delta_event (quoted ''Hi''))"
  let ?m1 = "[(js ''type'', JStr (js ''response.output_text.delta'')),
              (js ''delta'', JStr (js ''Hi''))]"
  let ?l2 = "js (''data: '' @ delta_event (quoted ''''))"
  let ?m2 = "[(js ''type'', JStr (js ''response.output_text.delta'')), (js ''delta'', JStr [])]"
  have s1: "startsWith ?l1 (js ''data: '')" by code_simp
  have p1: "JSON_parse (payload ?l1) = Some (JObj ?m1)" by code_simp
  have y1: "line_yield ?l1 = [JStr (js ''Hi'')]" by code_simp
  have s2: "startsWith ?l2 (js ''data: '')" by code_simp
  have p2: "JSON_parse (payload ?l2) = Some (JObj ?m2)" by code_simp
  have f2: "field ?m2 (js ''delta'') = Some (JStr [])" by code_simp
  from C3_only_delta_events_yield [OF s1 p1] y1
  have a: "field ?m1 (js ''delta'') = Some (JStr (js ''Hi''))"
    by simp
  from C3_only_delta_events_yield [OF s2 p2] f2
  have b: "on_line ?l2 = Some []"
    by blast
  from s1 p1 y1 a s2 p2 b show ?thesis
    by (simp only: simp_thms)
qed

text \<open>
  C4, as stated, fails: an event with the discriminant whose \<open>delta\<close> is the number 5 is
  not skipped. Line 113 tests the truthiness of \<open>parsed.delta\<close>, not its type, and line
  114 yields the number.
\<close>

theorem C4_number_delta_is_yielded:
  "field [(js ''type'', JStr (js ''response.output_text.delta'')), (js ''delta'', JNum 5)]
       (js ''type'') = Some (JStr (js ''response.output_text.delta''))
   \<and> field [(js ''type'', JStr (js ''response.output_text.delta'')), (js ''delta'', JNum 5)]
       (js ''delta'') = Some (JNum 5)
   \<and> JSON_parse (payload (js (''data: '' @ delta_event ''5'')))
       = Some (JObj [(js ''type'', JStr (js ''response.output_text.delta'')),
                     (js ''delta'', JNum 5)])
   \<and> on_line (js (''data: '' @ delta_event ''5'')) = Some [JNum 5]"
proof -
  let ?l = "js (''data: '' @ delta_event ''5'')"
  let ?m = "[(js ''type'', JStr (js ''response.output_text.delta'')), (js ''delta'', JNum 5)]"
  have s: "startsWith ?l (js ''data: '')" by code_simp
  have p: "JSON_parse (payload ?l) = Some (JObj ?m)" by code_simp
  have t: "field ?m (js ''type'') = Some (JStr (js ''response.output_text.delta''))" by code_simp
  have d: "field ?m (js ''delta'') = Some (JNum 5)" by code_simp
  have "on_line ?l = Some [JNum 5]"
    unfolding on_line_object [OF s p] t d by simp
  with t d p show ?thesis
    by (simp only: simp_thms)
qed

text \<open>
  C4, amended. For an event with the discriminant whose \<open>delta\<close> is present and is not a
  string, the decoder yields that value as it is when it is truthy (\<open>true\<close>, a number
  whose double is not zero, an array, an object) and yields nothing when it is falsy
  (\<open>null\<close>, \<open>false\<close>, a number whose double is zero).
\<close>

theorem C4_non_string_delta:
  assumes "startsWith line (js ''data: '')"
      and "JSON_parse (payload line) = Some (JObj members)"
      and "field members (js ''type'') = Some (JStr (js ''response.output_text.delta''))"
      and "field members (js ''delta'') = Some d"
      and "\<forall>s. d \<noteq> JStr s"
  shows "on_line line =
     Some (if d = JNull \<or> d = JBool False \<or> (\<exists>q. d = JNum q \<and> \<bar>q\<bar> * 2 ^ 1075 \<le> 1)
           then [] else [d])"
proof -
  have "truthy d \<longleftrightarrow> \<not> (d = JNull \<or> d = JBool False \<or> (\<exists>q. d = JNum q \<and> \<bar>q\<bar> * 2 ^ 1075 \<le> 1))"
    using assms(5) by (cases d) auto
  then show ?thesis
    using on_line_object [OF assms(1,2)] assms(3,4) by simp
qed

theorem C4_non_string_delta_witness:
  "startsWith (js (''data: '' @ delta_event ''[]'')) (js ''data: '')
   \<and> JSON_parse (payload (js (''data: '' @ delta_event ''[]'')))
       = Some (JObj [(js ''type'', JStr (js ''response.output_text.delta'')),
                     (js ''delta'', JArr [])])
   \<and> (\<forall>s. JArr [] \<noteq> JStr s)
   \<and> on_line (js (''data: '' @ delta_event ''[]'')) = Some [JArr []]
   \<and> startsWith (js (''data: '' @ delta_event ''0.0'')) (js ''data: '')
   \<and> JSON_parse (payload (js (''data: '' @ delta_event ''0.0'')))
       = Some (JObj [(js ''type'', JStr (js ''response.output_text.delta'')),
                     (js ''delta'', JNum 0)])
   \<and> on_line (js (''data: '' @ delta_event ''0.0'')) = Some []"
proof -
  let ?l1 = "js (''data: '' @ delta_event ''[]'')"
  let ?m1 = "[(js ''type'', JStr (js ''response.output_text.delta'')), (js ''delta'', JArr [])]"
  let ?l2 = "js (''data: '' @ delta_event ''0.0'')"
  let ?m2 = "[(js ''type'', JStr (js ''response.output_text.delta'')), (js ''delta'', JNum 0)]"
  have s1: "startsWith ?l1 (js ''data: '')" by code_simp
  have p1: "JSON_parse (payload ?l1) = Some (JObj ?m1)" by code_simp
  have t1: "field ?m1 (js ''type'') = Some (JStr (js ''response.output_text.delta''))" by code_simp
  have d1: "field ?m1 (js ''delta'') = Some (JArr [])" by code_simp
  have n1: "\<forall>s. JArr [] \<noteq> JStr s" by simp
  have s2: "startsWith ?l2 (js ''data: '')" by code_simp
  have p2: "JSON_parse (payload ?l2) = Some (JObj ?m2)" by code_simp
  have t2: "field ?m2 (js ''type'') = Some (JStr (js ''response.output_text.delta''))" by code_simp
  have d2: "field ?m2 (js ''delta'') = Some (JNum 0)" by code_simp
  have n2: "\<forall>s. JNum 0 \<noteq> JStr s" by simp
  from C4_non_string_delta [OF s1 p1 t1 d1 n1]
  have a: "on_line ?l1 = Some [JArr []]" by simp
  from C4_non_string_delta [OF s2 p2 t2 d2 n2]
  have b: "on_line ?l2 = Some []" by simp
  from s1 p1 n1 a s2 p2 b show ?thesis
    by (simp only: simp_thms)
qed

text \<open>
  C5. A line with the marker whose payload is not the sentinel and does not parse as
  JSON yields nothing and does not end the loop: the \<open>for\<close> loop over the lines around
  it does what it does without the line. For a whole stream in which such a line is one
  of the complete lines, the yielded values and the way the generator ends are those of
  the other lines, across chunks; the SyntaxError never leaves the generator.
\<close>

theorem C5_malformed_payload_is_skipped:
  assumes "startsWith line (js ''data: '')"
      and "payload line \<noteq> js ''[DONE]''"
      and "JSON_parse (payload line) = None"
  shows "on_line line = Some []
       \<and> for_lines (before @ line # after) = for_lines (before @ after)
       \<and> (complete_lines (decoded_text (concat values)) = before @ line # after \<longrightarrow>
            yielded (streamChunks fresh values fin) = fst (for_lines (before @ after))
          \<and> completion (streamChunks fresh values fin) =
              (if snd (for_lines (before @ after)) then Returned else when_read_ends fin))"
proof -
  have one: "on_line line = Some []"
    using assms by (simp add: on_line_def try_block_def)
  then have "for_lines (line # after) = for_lines after"
    by (simp add: split_beta)
  then have skip: "for_lines (before @ line # after) = for_lines (before @ after)"
    by (simp add: for_lines_append)
  show ?thesis
    using one skip streamChunks_fresh [of "values" fin] by simp
qed

theorem C5_malformed_payload_is_skipped_witness:
  "startsWith (js ''data: {not json'') (js ''data: '')
   \<and> payload (js ''data: {not json'') \<noteq> js ''[DONE]''
   \<and> JSON_parse (payload (js ''data: {not json'')) = None
   \<and> complete_lines (decoded_text (concat
        [ascii (''data: '' @ delta_event (quoted ''a'')) @ [0x0A] @ ascii ''data: {not js'',
         ascii ''on'' @ [0x0A] @ ascii (''data: '' @ delta_event (quoted ''b'')) @ [0x0A]]))
       = [js (''data: '' @ delta_event (quoted ''a''))] @ js ''data: {not json''
           # [js (''data: '' @ delta_event (quoted ''b''))]
   \<and> yielded (streamChunks fresh
        [ascii (''data: '' @ delta_event (quoted ''a'')) @ [0x0A] @ ascii ''data: {not js'',
         ascii ''on'' @ [0x0A] @ ascii (''data: '' @ delta_event (quoted ''b'')) @ [0x0A]]
        (Closed :: unit stream_end))
       = [JStr (js ''a''), JStr (js ''b'')]
   \<and> completion (streamChunks fresh
        [ascii (''data: '' @ delta_event (quoted ''a'')) @ [0x0A] @ ascii ''data: {not js'',
         ascii ''on'' @ [0x0A] @ ascii (''data: '' @ delta_event (quoted ''b'')) @ [0x0A]]
        (Closed :: unit stream_end))
       = LoopExit"
proof -
  let ?line = "js ''data: {not json''"
  let ?before = "[js (''data: '' @ delta_event (quoted ''a''))]"
  let ?after = "[js (''data: '' @ delta_event (quoted ''b''))]"
  let ?chunks = "[ascii (''data: '' @ delta_event (quoted ''a'')) @ [0x0A] @ ascii ''data: {not js'',
         ascii ''on'' @ [0x0A] @ ascii (''data: '' @ delta_event (quoted ''b'')) @ [0x0A]]"
  have h1: "startsWith ?line (js ''data: '')" by code_simp
  have h2: "payload ?line \<noteq> js ''[DONE]''" by code_simp
  have h3: "JSON_parse (payload ?line) = None" by code_simp
  have h4: "complete_lines (decoded_text (concat ?chunks)) = ?before @ ?line # ?after"
    by code_simp
  have f: "for_lines (?before @ ?after) = ([JStr (js ''a''), JStr (js ''b'')], False)"
    by code_simp
  from C5_malformed_payload_is_skipped [OF h1 h2 h3, of ?before ?after ?chunks "Closed :: unit stream_end"] h4
  have "yielded (streamChunks fresh ?chunks (Closed :: unit stream_end)) = [JStr (js ''a''), JStr (js ''b'')]
      \<and> completion (streamChunks fresh ?chunks (Closed :: unit stream_end)) = LoopExit"
    unfolding f by (simp add: when_read_ends_def)
  with h1 h2 h3 h4 show ?thesis
    by (simp only: simp_thms)
qed

text \<open>
  C6. Between two chunk arrivals, after any number of chunks, \<open>buffer\<close> is the longest
  suffix of the text decoded so far that holds no line terminator, and the text decoded
  so far is the candidate lines taken out so far, each followed by its line terminator,
  followed by \<open>buffer\<close>. As long as no sentinel has come, this closure is the one from
  which the generator handles the chunks that follow.
\<close>

theorem C6_buffer_invariant:
  "longest_suffix_without newline (buffer (fst (drain fresh values)))
       (decoded_text (concat values))
   \<and> decoded_text (concat values)
       = concat (map (\<lambda>l. l @ [newline]) (snd (drain fresh values)))
         @ buffer (fst (drain fresh values))
   \<and> (\<not> (\<exists>l \<in> set (snd (drain fresh values)). is_DONE l) \<longrightarrow>
        streamChunks fresh (values @ rest) fin =
          (let r = streamChunks (fst (drain fresh values)) rest fin
           in r\<lparr>yielded := fst (for_lines (snd (drain fresh values))) @ yielded r,
                reads := length values + reads r\<rparr>))"
proof -
  have dr: "drain fresh values =
      (\<lparr>buffer = last (split newline (decoded_text (concat values))),
        decoder = fst (decode new_TextDecoder (concat values))\<rparr>,
       complete_lines (decoded_text (concat values)))"
    using drain_char [OF fresh_inv, of "values"] by (simp add: fresh_def decoded_text_def)
  have a: "longest_suffix_without newline (buffer (fst (drain fresh values)))
       (decoded_text (concat values))"
    unfolding longest_suffix_without_def
    by (simp add: dr last_split_suffix last_split_no_sep last_split_longest)
  have b: "decoded_text (concat values)
       = concat (map (\<lambda>l. l @ [newline]) (snd (drain fresh values)))
         @ buffer (fst (drain fresh values))"
    by (simp add: dr complete_lines_def unsplit)
  have c: "streamChunks fresh (values @ rest) fin =
          (let r = streamChunks (fst (drain fresh values)) rest fin
           in r\<lparr>yielded := fst (for_lines (snd (drain fresh values))) @ yielded r,
                reads := length values + reads r\<rparr>)"
    if "\<not> (\<exists>l \<in> set (snd (drain fresh values)). is_DONE l)"
    using that by (intro streamChunks_prefix [OF fresh_inv]) (simp add: for_lines_snd)
  from a b c show ?thesis by blast
qed

text \<open>
  An instance: two chunks that end inside a line; the third line is still incomplete.
\<close>

theorem C6_buffer_invariant_witness:
  "buffer (fst (drain fresh
        [ascii ''data: x'' @ [0x0A] @ ascii ''da'', ascii ''ta: y'' @ [0x0A] @ ascii ''dat'']))
     = js ''dat''
   \<and> snd (drain fresh
        [ascii ''data: x'' @ [0x0A] @ ascii ''da'', ascii ''ta: y'' @ [0x0A] @ ascii ''dat''])
     = [js ''data: x'', js ''data: y'']
   \<and> suffix (js ''t'') (decoded_text (concat
        [ascii ''data: x'' @ [0x0A] @ ascii ''da'', ascii ''ta: y'' @ [0x0A] @ ascii ''dat'']))
   \<and> newline \<notin> set (js ''t'')
   \<and> length (js ''t'') \<le> length (buffer (fst (drain fresh
        [ascii ''data: x'' @ [0x0A] @ ascii ''da'', ascii ''ta: y'' @ [0x0A] @ ascii ''dat''])))
   \<and> decoded_text (concat
        [ascii ''data: x'' @ [0x0A] @ ascii ''da'', ascii ''ta: y'' @ [0x0A] @ ascii ''dat''])
      = concat (map (\<lambda>l. l @ [newline]) [js ''data: x'', js ''data: y'']) @ js ''dat''
   \<and> \<not> (\<exists>l \<in> set (snd (drain fresh
        [ascii ''data: x'' @ [0x0A] @ ascii ''da'', ascii ''ta: y'' @ [0x0A] @ ascii ''dat''])).
          is_DONE l)
   \<and> reads (streamChunks fresh
        ([ascii ''data: x'' @ [0x0A] @ ascii ''da'', ascii ''ta: y'' @ [0x0A] @ ascii ''dat'']
         @ [ascii ''a: z'' @ [0x0A]]) (Closed :: unit stream_end)) = 4"
proof -
  let ?chunks =
    "[ascii ''data: x'' @ [0x0A] @ ascii ''da'', ascii ''ta: y'' @ [0x0A] @ ascii ''dat'']"
  let ?rest = "[ascii ''a: z'' @ [0x0A]]"
  have b: "buffer (fst (drain fresh ?chunks)) = js ''dat''" by code_simp
  have l: "snd (drain fresh ?chunks) = [js ''data: x'', js ''data: y'']" by code_simp
  have s: "suffix (js ''t'') (decoded_text (concat ?chunks))" by code_simp
  have n: "newline \<notin> set (js ''t'')" by code_simp
  have d: "\<not> (\<exists>l \<in> set (snd (drain fresh ?chunks)). is_DONE l)" by code_simp
  have r: "reads (streamChunks (fst (drain fresh ?chunks)) ?rest (Closed :: unit stream_end)) = 2"
    by code_simp
  note C = C6_buffer_invariant [of ?chunks ?rest "Closed :: unit stream_end"]
  from C s n have "length (js ''t'') \<le> length (buffer (fst (drain fresh ?chunks)))"
    unfolding longest_suffix_without_def by blast
  moreover from C have "decoded_text (concat ?chunks)
      = concat (map (\<lambda>l. l @ [newline]) [js ''data: x'', js ''data: y'']) @ js ''dat''"
    unfolding b l by blast
  moreover from C d have "streamChunks fresh (?chunks @ ?rest) (Closed :: unit stream_end) =
      (let r = streamChunks (fst (drain fresh ?chunks)) ?rest (Closed :: unit stream_end)
       in r\<lparr>yielded := fst (for_lines (snd (drain fresh ?chunks))) @ yielded r,
            reads := length ?chunks + reads r\<rparr>)"
    by blast
  then have "reads (streamChunks fresh (?chunks @ ?rest) (Closed :: unit stream_end)) = 4"
    using r by (simp add: Let_def)
  ultimately show ?thesis
    using b l s n d by (simp only: simp_thms)
qed

text \<open>
  C7. When the reader reports the end of the stream and no complete line was a
  sentinel, the generator has yielded the values of all the complete lines of the text
  decoded from the bytes received, in order, and ends by leaving the loop, with no
  error, after one read per chunk and the read that reported the end.
\<close>

theorem C7_end_of_stream_without_sentinel:
  assumes "\<not> (\<exists>l \<in> set (complete_lines (decoded_text (concat values))). is_DONE l)"
  shows "streamChunks fresh values Closed =
     \<lparr>yielded = all_deltas (decoded_text (concat values)),
      completion = LoopExit,
      reads = Suc (length values),
      buffer_left = last (split newline (decoded_text (concat values)))\<rparr>"
  using run_without_DONE [OF assms, of Closed]
  by (simp add: when_read_ends_def)

theorem C7_end_of_stream_without_sentinel_witness:
  "\<not> (\<exists>l \<in> set (complete_lines (decoded_text (concat
          [ascii (''data: '' @ delta_event (quoted ''Hel'')) @ [0x0A] @ ascii ''data: '',
           ascii (delta_event (quoted ''lo'')) @ [0x0A]]))). is_DONE l)
   \<and> streamChunks fresh
          [ascii (''data: '' @ delta_event (quoted ''Hel'')) @ [0x0A] @ ascii ''data: '',
           ascii (delta_event (quoted ''lo'')) @ [0x0A]] (Closed :: unit stream_end)
     = \<lparr>yielded = [JStr (js ''Hel''), JStr (js ''lo'')], completion = LoopExit,
        reads = 3, buffer_left = []\<rparr>"
proof -
  let ?chunks = "[ascii (''data: '' @ delta_event (quoted ''Hel'')) @ [0x0A] @ ascii ''data: '',
           ascii (delta_event (quoted ''lo'')) @ [0x0A]]"
  have h: "\<not> (\<exists>l \<in> set (complete_lines (decoded_text (concat ?chunks))). is_DONE l)"
    by code_simp
  have ys: "all_deltas (decoded_text (concat ?chunks)) = [JStr (js ''Hel''), JStr (js ''lo'')]"
    by code_simp
  have bl: "last (split newline (decoded_text (concat ?chunks))) = []"
    by code_simp
  have n: "Suc (length ?chunks) = 3"
    by simp
  from C7_end_of_stream_without_sentinel [OF h, where ?'a = unit] h
  show ?thesis
    unfolding ys bl n by (simp only: simp_thms)
qed

text \<open>
  C8. When the read that follows the chunks rejects with \<open>e\<close> and no complete line so
  far was a sentinel, the generator has yielded the values of all the complete lines of
  the text decoded so far, exactly the values it yields when the stream ends there
  instead, and then throws \<open>e\<close> out of that read.
\<close>

theorem C8_read_failure_after_deltas:
  fixes e :: 'e
  assumes "\<not> (\<exists>l \<in> set (complete_lines (decoded_text (concat values))). is_DONE l)"
  shows "streamChunks fresh values (Errored e) =
     \<lparr>yielded = all_deltas (decoded_text (concat values)),
      completion = Threw e,
      reads = Suc (length values),
      buffer_left = last (split newline (decoded_text (concat values)))\<rparr>
   \<and> yielded (streamChunks fresh values (Errored e))
       = yielded (streamChunks fresh values (Closed :: 'e stream_end))"
  using run_without_DONE [OF assms, of "Errored e"]
    run_without_DONE [OF assms, of "Closed :: 'e stream_end"]
  by (simp add: when_read_ends_def)

theorem C8_read_failure_after_deltas_witness:
  "\<not> (\<exists>l \<in> set (complete_lines (decoded_text (concat
          [ascii (''data: '' @ delta_event (quoted ''Hel'')) @ [0x0A],
           ascii (''data: '' @ delta_event (quoted ''lo'')) @ [0x0A] @ ascii ''data: [DO'']))).
        is_DONE l)
   \<and> streamChunks fresh
          [ascii (''data: '' @ delta_event (quoted ''Hel'')) @ [0x0A],
           ascii (''data: '' @ delta_event (quoted ''lo'')) @ [0x0A] @ ascii ''data: [DO'']
          (Errored ''network error'')
     = \<lparr>yielded = [JStr (js ''Hel''), JStr (js ''lo'')], completion = Threw ''network error'',
        reads = 3, buffer_left = js ''data: [DO''\<rparr>"
proof -
  let ?chunks = "[ascii (''data: '' @ delta_event (quoted ''Hel'')) @ [0x0A],
           ascii (''data: '' @ delta_event (quoted ''lo'')) @ [0x0A] @ ascii ''data: [DO'']"
  have h: "\<not> (\<exists>l \<in> set (complete_lines (decoded_text (concat ?chunks))). is_DONE l)"
    by code_simp
  have ys: "all_deltas (decoded_text (concat ?chunks)) = [JStr (js ''Hel''), JStr (js ''lo'')]"
    by code_simp
  have bl: "last (split newline (decoded_text (concat ?chunks))) = js ''data: [DO''"
    by code_simp
  have n: "Suc (length ?chunks) = 3"
    by simp
  from C8_read_failure_after_deltas [OF h, of "''network error''", THEN conjunct1] h
  show ?thesis
    unfolding ys bl n by (simp only: simp_thms)
qed

text \<open>
  C9. The key is the caller's key when that is a non-empty string, whatever the
  environment holds, and the key of the environment otherwise; every request sent
  carries the key so chosen. When neither is a non-empty string the call fails with the
  missing-key error: no request has been sent, and the call gives back no generator, so
  the error is the outcome of the call and not of a run of the sequence.
\<close>

theorem C9_key_resolution:
  "(key_truthy user_key \<longrightarrow>
       resolve_key user_key env_key = user_key
     \<and> (\<forall>req \<in> set (fst (streamOpenAIChat user_key env_key input fetch)).
           authorization req = js ''Bearer '' @ the user_key))
   \<and> (\<not> key_truthy user_key \<and> key_truthy env_key \<longrightarrow>
       resolve_key user_key env_key = env_key
     \<and> (\<forall>req \<in> set (fst (streamOpenAIChat user_key env_key input fetch)).
           authorization req = js ''Bearer '' @ the env_key))
   \<and> (\<not> key_truthy user_key \<and> \<not> key_truthy env_key \<longrightarrow>
       streamOpenAIChat user_key env_key input fetch = ([], Inl MissingKey))"
  by (auto simp: streamOpenAIChat_def resolve_key_def Let_def
      split: sum.splits option.splits if_splits)

theorem C9_key_resolution_witness:
  "key_truthy (Some (js ''sk-user''))
   \<and> fst (streamOpenAIChat (Some (js ''sk-user'')) (Some (js ''sk-env'')) ()
        (\<lambda>req. Inr \<lparr>ok = True, errorText = [], body = Some ([], Closed :: unit stream_end)\<rparr>))
       = [\<lparr>authorization = js ''Bearer sk-user'', content = ()\<rparr>]
   \<and> \<not> key_truthy (Some []) \<and> key_truthy (Some (js ''sk-env''))
   \<and> fst (streamOpenAIChat (Some []) (Some (js ''sk-env'')) ()
        (\<lambda>req. Inr \<lparr>ok = True, errorText = [], body = Some ([], Closed :: unit stream_end)\<rparr>))
       = [\<lparr>authorization = js ''Bearer sk-env'', content = ()\<rparr>]
   \<and> \<not> key_truthy None
   \<and> streamOpenAIChat None (Some []) ()
        (\<lambda>req. Inr \<lparr>ok = True, errorText = [], body = Some ([], Closed :: unit stream_end)\<rparr>)
       = ([], Inl MissingKey)"
proof -
  let ?fetch = "\<lambda>req :: unit request.
     Inr \<lparr>ok = True, errorText = [], body = Some ([], Closed :: unit stream_end)\<rparr> :: unit + unit response"
  have k1: "key_truthy (Some (js ''sk-user''))" by (simp add: key_truthy_def js_def)
  have k2: "\<not> key_truthy (Some [])" by (simp add: key_truthy_def)
  have k3: "key_truthy (Some (js ''sk-env''))" by (simp add: key_truthy_def js_def)
  have k4: "\<not> key_truthy None" by (simp add: key_truthy_def)
  have one: "length (fst (streamOpenAIChat uk ek () ?fetch)) = 1 \<and>
      content (hd (fst (streamOpenAIChat uk ek () ?fetch))) = ()"
    if "key_truthy (resolve_key uk ek)" for uk ek
    using that by (simp add: streamOpenAIChat_def Let_def)
  note C = C9_key_resolution [of _ _ "()" ?fetch]
  have a: "fst (streamOpenAIChat (Some (js ''sk-user'')) (Some (js ''sk-env'')) () ?fetch)
       = [\<lparr>authorization = js ''Bearer sk-user'', content = ()\<rparr>]"
  proof -
    from C [of "Some (js ''sk-user'')" "Some (js ''sk-env'')"] k1
    have r: "resolve_key (Some (js ''sk-user'')) (Some (js ''sk-env'')) = Some (js ''sk-user'')"
      and "\<forall>req \<in> set (fst (streamOpenAIChat (Some (js ''sk-user'')) (Some (js ''sk-env'')) () ?fetch)).
           authorization req = js ''Bearer '' @ js ''sk-user''"
      by simp_all
    moreover from one [of "Some (js ''sk-user'')" "Some (js ''sk-env'')"] r k1
    obtain q where "fst (streamOpenAIChat (Some (js ''sk-user'')) (Some (js ''sk-env'')) () ?fetch) = [q]"
      and "content q = ()"
      by (cases "fst (streamOpenAIChat (Some (js ''sk-user'')) (Some (js ''sk-env'')) () ?fetch)") auto
    ultimately show ?thesis by (simp add: js_def)
  qed
  have b: "fst (streamOpenAIChat (Some []) (Some (js ''sk-env'')) () ?fetch)
       = [\<lparr>authorization = js ''Bearer sk-env'', content = ()\<rparr>]"
  proof -
    from C [of "Some []" "Some (js ''sk-env'')"] k2 k3
    have r: "resolve_key (Some []) (Some (js ''sk-env'')) = Some (js ''sk-env'')"
      and "\<forall>req \<in> set (fst (streamOpenAIChat (Some []) (Some (js ''sk-env'')) () ?fetch)).
           authorization req = js ''Bearer '' @ js ''sk-env''"
      by simp_all
    moreover from one [of "Some []" "Some (js ''sk-env'')"] r k3
    obtain q where "fst (streamOpenAIChat (Some []) (Some (js ''sk-env'')) () ?fetch) = [q]"
      and "content q = ()"
      by (cases "fst (streamOpenAIChat (Some []) (Some (js ''sk-env'')) () ?fetch)") auto
    ultimately show ?thesis by (simp add: js_def)
  qed
  from C [of None "Some []"] k4 k2
  have c: "streamOpenAIChat None (Some []) () ?fetch = ([], Inl MissingKey)"
    by simp
  from k1 a k2 k3 b k4 c show ?thesis
    by (simp only: simp_thms)
qed

text \<open>
  C10. Let the decoded text end with \<open>r\<close>, a last line that no line terminator follows
  (for instance a whole \<open>data: \<close> record). Then \<open>r\<close> is never a candidate line: the values
  yielded are those of the text before \<open>r\<close>. When the stream ends without a sentinel,
  \<open>r\<close> is what \<open>buffer\<close> holds at the end, and nothing reads it any more.
\<close>

theorem C10_unterminated_record_is_dropped:
  assumes "decoded_text (concat values) = t @ r"
      and "newline \<notin> set r"
      and "t = [] \<or> last t = newline"
  shows "yielded (streamChunks fresh values fin) = deltas_before_DONE t
       \<and> (\<not> (\<exists>l \<in> set (complete_lines t). is_DONE l) \<longrightarrow>
            streamChunks fresh values Closed =
              \<lparr>yielded = all_deltas t, completion = LoopExit,
               reads = Suc (length values), buffer_left = r\<rparr>)"
proof -
  have cl: "complete_lines (decoded_text (concat values)) = complete_lines t"
    unfolding assms(1) by (rule complete_lines_unterminated [OF assms(2)])
  have bl: "last (split newline (decoded_text (concat values))) = r"
    unfolding assms(1)
    by (simp add: complete_lines_unterminated [OF assms(2)] last_split_terminated [OF assms(3)])
  have a: "yielded (streamChunks fresh values fin) = deltas_before_DONE t"
    using streamChunks_fresh [of "values" fin]
    by (simp add: cl for_lines_fst deltas_before_DONE_def)
  have b: "streamChunks fresh values Closed =
              \<lparr>yielded = all_deltas t, completion = LoopExit,
               reads = Suc (length values), buffer_left = r\<rparr>"
    if "\<not> (\<exists>l \<in> set (complete_lines t). is_DONE l)"
  proof -
    from that have "\<not> (\<exists>l \<in> set (complete_lines (decoded_text (concat values))). is_DONE l)"
      by (simp add: cl)
    from run_without_DONE [OF this, of Closed] show ?thesis
      by (simp add: when_read_ends_def bl all_deltas_def cl)
  qed
  from a b show ?thesis by blast
qed

text \<open>
  An instance: the second record would yield \<open>b\<close> if it were a candidate line, and the
  same bytes followed by a line terminator do yield it.
\<close>

theorem C10_unterminated_record_is_dropped_witness:
  "decoded_text (concat
      [ascii (''data: '' @ delta_event (quoted ''a'')) @ [0x0A],
       ascii (''data: '' @ delta_event (quoted ''b''))])
     = (js (''data: '' @ delta_event (quoted ''a'')) @ [newline])
       @ js (''data: '' @ delta_event (quoted ''b''))
   \<and> newline \<notin> set (js (''data: '' @ delta_event (quoted ''b'')))
   \<and> last (js (''data: '' @ delta_event (quoted ''a'')) @ [newline]) = newline
   \<and> \<not> (\<exists>l \<in> set (complete_lines (js (''data: '' @ delta_event (quoted ''a'')) @ [newline])).
          is_DONE l)
   \<and> on_line (js (''data: '' @ delta_event (quoted ''b''))) = Some [JStr (js ''b'')]
   \<and> streamChunks fresh
      [ascii (''data: '' @ delta_event (quoted ''a'')) @ [0x0A],
       ascii (''data: '' @ delta_event (quoted ''b''))] (Closed :: unit stream_end)
     = \<lparr>yielded = [JStr (js ''a'')], completion = LoopExit, reads = 3,
        buffer_left = js (''data: '' @ delta_event (quoted ''b''))\<rparr>
   \<and> yielded (streamChunks fresh
      [ascii (''data: '' @ delta_event (quoted ''a'')) @ [0x0A],
       ascii (''data: '' @ delta_event (quoted ''b'')) @ [0x0A]] (Closed :: unit stream_end))
     = [JStr (js ''a''), JStr (js ''b'')]"
proof -
  let ?chunks = "[ascii (''data: '' @ delta_event (quoted ''a'')) @ [0x0A],
       ascii (''data: '' @ delta_event (quoted ''b''))]"
  let ?t = "js (''data: '' @ delta_event (quoted ''a'')) @ [newline]"
  let ?r = "js (''data: '' @ delta_event (quoted ''b''))"
  have h1: "decoded_text (concat ?chunks) = ?t @ ?r" by code_simp
  have h2: "newline \<notin> set ?r" by code_simp
  have h3': "last ?t = newline" by simp
  then have h3: "?t = [] \<or> last ?t = newline" by (simp only: simp_thms)
  have h4: "\<not> (\<exists>l \<in> set (complete_lines ?t). is_DONE l)" by code_simp
  have o: "on_line ?r = Some [JStr (js ''b'')]" by code_simp
  have ys: "all_deltas ?t = [JStr (js ''a'')]" by code_simp
  have n: "Suc (length ?chunks) = 3" by simp
  have full: "yielded (streamChunks fresh
      [ascii (''data: '' @ delta_event (quoted ''a'')) @ [0x0A],
       ascii (''data: '' @ delta_event (quoted ''b'')) @ [0x0A]] (Closed :: unit stream_end))
     = [JStr (js ''a''), JStr (js ''b'')]"
    by code_simp
  from C10_unterminated_record_is_dropped [OF h1 h2 h3, where ?'a = unit] h4
  have "streamChunks fresh ?chunks (Closed :: unit stream_end)
     = \<lparr>yielded = [JStr (js ''a'')], completion = LoopExit, reads = 3, buffer_left = ?r\<rparr>"
    unfolding ys n by blast
  with h1 h2 h3' h4 o full show ?thesis
    by (simp only: simp_thms)
qed

end
